theory Spec2Isabelle
  imports Complex_Main "HOL-Library.Log_Nat"
begin

section \<open>Categorical DQN agent: support, projection and agent loop\<close>

text \<open>
  A shallow embedding of \<^verbatim>\<open>src/agent/CategoricalDQN.py\<close>. Arrays are lists, integer
  index arrays are \<^typ>\<open>int list\<close>, and every exception the code can raise on the
  modelled inputs is a value of \<open>py_error\<close>.

  The numbers of the code are 64-bit floats, and the program is modelled at two levels.
  The functions \<open>linspace\<close>, \<open>init\<close>, \<open>b_row\<close>, \<open>train_target\<close> and their
  companions compute in \<^typ>\<open>real\<close> without rounding; they carry the statements that
  do not depend on rounding (which rows are written, conservation of mass, selection of
  the first maximum, saturation, the absence of validation). The functions whose name
  ends in \<open>64\<close> round the result of every arithmetic operation to binary64 with
  \<open>fl64\<close>; they carry the statements that rounding decides (order and spacing of the
  atoms, range of the bin indices).
\<close>

datatype py_error = ValueError | ZeroDivisionError | IndexError

subsection \<open>Configuration and agent construction\<close>

record config =
  Categorical_n_atoms :: int
  Categorical_Vmin :: real
  Categorical_Vmax :: real
  batch_size :: nat
  action_dim :: nat
  discount_rate :: real
  replay_buffer_size :: nat
  weights_update_frequency :: nat
  episodes :: nat
  steps :: nat

text \<open>
  \<^verbatim>\<open>np.linspace(start, stop, num)\<close> with the default \<^verbatim>\<open>endpoint=True\<close>: a negative
  \<^verbatim>\<open>num\<close> raises ValueError; otherwise \<^verbatim>\<open>y = arange(0, num)\<close> is scaled by
  \<^verbatim>\<open>step = delta / div\<close> (by \<^verbatim>\<open>y / div * delta\<close> when the step is zero, by
  \<^verbatim>\<open>delta\<close> when \<^verbatim>\<open>num <= 1\<close>), shifted by \<^verbatim>\<open>start\<close>, and for
  \<^verbatim>\<open>num > 1\<close> the last entry is overwritten with \<^verbatim>\<open>stop\<close>.
\<close>

definition linspace :: "real \<Rightarrow> real \<Rightarrow> int \<Rightarrow> py_error + real list" where
  "linspace start stop num =
     (if num < 0 then Inl ValueError
      else
        let dv = num - 1;
            delta = stop - start;
            y = map real [0..<nat num]
        in if num > 1 then
             (let step = delta / real_of_int dv;
                  y1 = (if step = 0 then map (\<lambda>k. k / real_of_int dv * delta) y
                        else map (\<lambda>k. k * step) y);
                  y2 = map (\<lambda>v. v + start) y1
              in Inr (y2[nat num - 1 := stop]))
           else Inr (map (\<lambda>k. k * delta + start) y))"

text \<open>
  The fields that \<^verbatim>\<open>__init__\<close> computes for the support. The networks, the
  environment and the checkpoint callback are collaborators and are not part of the record.
\<close>

record agent =
  cfg :: config
  n_atoms :: int
  vmin :: real
  vmax :: real
  atoms :: "real list"
  delta_z :: real

text \<open>
  \<^verbatim>\<open>__init__\<close>: \<^verbatim>\<open>np.linspace\<close> runs first (line 20), then
  \<^verbatim>\<open>delta_z = (Vmax - Vmin) / float(n_atoms - 1)\<close> (line 38), a Python float division
  that raises ZeroDivisionError when \<^verbatim>\<open>n_atoms = 1\<close>. There is no other check.
\<close>

definition init :: "config \<Rightarrow> py_error + agent" where
  "init c =
     (case linspace (Categorical_Vmin c) (Categorical_Vmax c) (Categorical_n_atoms c) of
        Inl e \<Rightarrow> Inl e
      | Inr zs \<Rightarrow>
          if real_of_int (Categorical_n_atoms c - 1) = 0 then Inl ZeroDivisionError
          else Inr \<lparr> cfg = c,
                     n_atoms = Categorical_n_atoms c,
                     vmin = Categorical_Vmin c,
                     vmax = Categorical_Vmax c,
                     atoms = zs,
                     delta_z = (Categorical_Vmax c - Categorical_Vmin c)
                                / real_of_int (Categorical_n_atoms c - 1) \<rparr>)"

subsection \<open>Action values and greedy selection\<close>

text \<open>
  \<^verbatim>\<open>np.dot(prob, self.atoms)\<close> contracts the last axis of a
  \<^verbatim>\<open>(batch, action, atom)\<close> array with the atom vector.
\<close>

definition dot :: "real list \<Rightarrow> real list \<Rightarrow> real" where
  "dot p z = sum_list (map2 (*) p z)"

definition q_values :: "agent \<Rightarrow> real list list list \<Rightarrow> real list list" where
  "q_values ag prob = map (map (\<lambda>p. dot p (atoms ag))) prob"

text \<open>
  \<^verbatim>\<open>np.argmax\<close> on a vector: the scan starts with the first entry as the running
  maximum and replaces it only by a strictly greater entry; an empty vector raises
  ValueError.
\<close>

fun argmax_from :: "real list \<Rightarrow> nat \<Rightarrow> real \<Rightarrow> nat \<Rightarrow> nat" where
  "argmax_from [] i mp mi = mi"
| "argmax_from (x # xs) i mp mi =
     (if x > mp then argmax_from xs (i + 1) x i else argmax_from xs (i + 1) mp mi)"

definition argmax :: "real list \<Rightarrow> py_error + nat" where
  "argmax q = (case q of [] \<Rightarrow> Inl ValueError | x # xs \<Rightarrow> Inr (argmax_from xs 1 x 0))"

text \<open>\<^verbatim>\<open>np.argmax(q_next, axis=1)\<close>: one argmax per batch item.\<close>

fun argmax_rows :: "real list list \<Rightarrow> py_error + nat list" where
  "argmax_rows [] = Inr []"
| "argmax_rows (q # qs) =
     (case argmax q of
        Inl e \<Rightarrow> Inl e
      | Inr k \<Rightarrow> (case argmax_rows qs of Inl e \<Rightarrow> Inl e | Inr ks \<Rightarrow> Inr (k # ks)))"

text \<open>Lines 69-70 of \<^verbatim>\<open>train_by_replay\<close>.\<close>

definition select_action_next :: "agent \<Rightarrow> real list list list \<Rightarrow> py_error + nat list" where
  "select_action_next ag prob_next = argmax_rows (q_values ag prob_next)"

text \<open>
  Lines 175-176 of \<^verbatim>\<open>eval_step\<close>: the network output has batch size one, and the
  action is the argmax of \<^verbatim>\<open>action_value[0]\<close>.
\<close>

definition eval_action :: "agent \<Rightarrow> real list list list \<Rightarrow> py_error + nat" where
  "eval_action ag action_prob =
     (case q_values ag action_prob of [] \<Rightarrow> Inl IndexError | q # _ \<Rightarrow> argmax q)"

subsection \<open>The projection of \<^verbatim>\<open>train_by_replay\<close>\<close>

text \<open>\<^verbatim>\<open>np.clip(x, lo, hi)\<close> is \<^verbatim>\<open>minimum(maximum(x, lo), hi)\<close>.\<close>

definition clip :: "real \<Rightarrow> real \<Rightarrow> real \<Rightarrow> real" where
  "clip x lo hi = min (max x lo) hi"

text \<open>
  Lines 77-85, for one batch item with reward \<open>r\<close> and terminal flag \<open>t\<close>: the shifted
  atoms \<^verbatim>\<open>rewards + discount_rate * (1 - terminals) * atoms\<close>, clipped.
\<close>

definition atoms_next_row :: "agent \<Rightarrow> real \<Rightarrow> bool \<Rightarrow> real list" where
  "atoms_next_row ag r t =
     map (\<lambda>z. clip (r + (discount_rate (cfg ag) * (1 - of_bool t)) * z) (vmin ag) (vmax ag))
       (atoms ag)"

text \<open>Line 88: \<^verbatim>\<open>b = (atoms_next - Categorical_Vmin) / delta_z\<close>.\<close>

definition b_row :: "agent \<Rightarrow> real \<Rightarrow> bool \<Rightarrow> real list" where
  "b_row ag r t =
     map (\<lambda>x. (x - Categorical_Vmin (cfg ag)) / delta_z ag) (atoms_next_row ag r t)"

text \<open>Line 89: \<^verbatim>\<open>l, u = np.floor(b).astype(int), np.ceil(b).astype(int)\<close>.\<close>

definition l_row :: "agent \<Rightarrow> real \<Rightarrow> bool \<Rightarrow> int list" where
  "l_row ag r t = map floor (b_row ag r t)"

definition u_row :: "agent \<Rightarrow> real \<Rightarrow> bool \<Rightarrow> int list" where
  "u_row ag r t = map ceiling (b_row ag r t)"

text \<open>
  Lines 92-93, entry by entry: \<^verbatim>\<open>(u + (l == u) - b) * prob_next\<close> and
  \<^verbatim>\<open>(b - l) * prob_next\<close>, where the Boolean \<^verbatim>\<open>l == u\<close> counts as 0 or 1.
\<close>

definition d_m_l :: "real \<Rightarrow> real \<Rightarrow> real" where
  "d_m_l b p = (real_of_int (\<lceil>b\<rceil> + of_bool (\<lfloor>b\<rfloor> = \<lceil>b\<rceil>)) - b) * p"

definition d_m_u :: "real \<Rightarrow> real \<Rightarrow> real" where
  "d_m_u b p = (b - real_of_int \<lfloor>b\<rfloor>) * p"

definition d_m_l_row :: "agent \<Rightarrow> real \<Rightarrow> bool \<Rightarrow> real list \<Rightarrow> real list" where
  "d_m_l_row ag r t p = map2 d_m_l (b_row ag r t) p"

definition d_m_u_row :: "agent \<Rightarrow> real \<Rightarrow> bool \<Rightarrow> real list \<Rightarrow> real list" where
  "d_m_u_row ag r t p = map2 d_m_u (b_row ag r t) p"

text \<open>
  \<^verbatim>\<open>np.add.at(a, indices, values)\<close>: unbuffered, so a repeated index accumulates.
  A negative index counts from the end; an index outside \<^verbatim>\<open>[-len(a), len(a))\<close>
  raises IndexError. Index and value vectors of different lengths do not occur below
  (both have one entry per atom) and are reported as ValueError.
\<close>

fun add_at :: "real list \<Rightarrow> int list \<Rightarrow> real list \<Rightarrow> py_error + real list" where
  "add_at a [] [] = Inr a"
| "add_at a (i # is) (v # vs) =
     (let n = int (length a);
          j = (if i < 0 then i + n else i)
      in if 0 \<le> j \<and> j < n then add_at (a[nat j := a ! nat j + v]) is vs
         else Inl IndexError)"
| "add_at a _ _ = Inl ValueError"

text \<open>
  The body of the loop of lines 105-108 for batch item \<open>i\<close>: the row of the selected action
  is cleared, then \<^verbatim>\<open>d_m_l[i]\<close> and \<^verbatim>\<open>d_m_u[i]\<close> are both added at the indices
  \<^verbatim>\<open>l[i]\<close>, as the source has it.
\<close>

definition loop_body ::
  "nat list \<Rightarrow> int list list \<Rightarrow> real list list \<Rightarrow> real list list \<Rightarrow> nat
     \<Rightarrow> real list list list \<Rightarrow> py_error + real list list list" where
  "loop_body action_next l dml dmu i target_histo =
     (let a = action_next ! i
      in if i < length target_histo \<and> a < length (target_histo ! i) then
           (let row0 = map (\<lambda>_. 0) (target_histo ! i ! a)
            in case add_at row0 (l ! i) (dml ! i) of
                 Inl e \<Rightarrow> Inl e
               | Inr row1 \<Rightarrow>
                   (case add_at row1 (l ! i) (dmu ! i) of
                      Inl e \<Rightarrow> Inl e
                    | Inr row2 \<Rightarrow>
                        Inr (target_histo[i := (target_histo ! i)[a := row2]])))
         else Inl IndexError)"

fun scatter_loop ::
  "nat list \<Rightarrow> int list list \<Rightarrow> real list list \<Rightarrow> real list list \<Rightarrow> nat list
     \<Rightarrow> real list list list \<Rightarrow> py_error + real list list list" where
  "scatter_loop action_next l dml dmu [] target_histo = Inr target_histo"
| "scatter_loop action_next l dml dmu (i # is) target_histo =
     (case loop_body action_next l dml dmu i target_histo of
        Inl e \<Rightarrow> Inl e
      | Inr th \<Rightarrow> scatter_loop action_next l dml dmu is th)"

text \<open>
  The arrays reaching the projection: \<^verbatim>\<open>uniform_random_replay\<close> delivers
  \<^verbatim>\<open>batch_size\<close> rewards and terminal flags, the target network an array of shape
  \<^verbatim>\<open>(batch_size, action_dim, n_atoms)\<close>. Other shapes, on which numpy raises or
  broadcasts, are not modelled and reported as ValueError at once.
\<close>

definition shapes_ok :: "agent \<Rightarrow> real list list list \<Rightarrow> real list \<Rightarrow> bool list \<Rightarrow> bool" where
  "shapes_ok ag prob_next rewards terminals \<longleftrightarrow>
     n_atoms ag = int (length (atoms ag)) \<and>
     length prob_next = batch_size (cfg ag) \<and>
     list_all (\<lambda>item. length item = action_dim (cfg ag) \<and>
                 list_all (\<lambda>row. length row = length (atoms ag)) item) prob_next \<and>
     length rewards = batch_size (cfg ag) \<and>
     length terminals = batch_size (cfg ag)"

text \<open>
  Lines 63-108 of \<^verbatim>\<open>train_by_replay\<close>, from the network output
  \<^verbatim>\<open>prob_next\<close> and the sampled rewards and terminal flags to
  \<^verbatim>\<open>target_histo\<close>. With \<^verbatim>\<open>delta_z = 0\<close> every entry of \<open>b\<close> is the NaN of
  \<^verbatim>\<open>0 / 0\<close>, whose conversion to an integer index is rejected by
  \<^verbatim>\<open>np.add.at\<close>: the model returns IndexError as soon as there is such an entry.
\<close>

definition train_target ::
  "agent \<Rightarrow> real list list list \<Rightarrow> real list \<Rightarrow> bool list \<Rightarrow> py_error + real list list list" where
  "train_target ag prob_next rewards terminals =
     (if \<not> shapes_ok ag prob_next rewards terminals then Inl ValueError
      else case select_action_next ag prob_next of
        Inl e \<Rightarrow> Inl e
      | Inr action_next \<Rightarrow>
          let B = batch_size (cfg ag);
              prob_sel = map (\<lambda>i. prob_next ! i ! (action_next ! i)) [0..<B];
              l = map (\<lambda>i. l_row ag (rewards ! i) (terminals ! i)) [0..<B];
              dml = map (\<lambda>i. d_m_l_row ag (rewards ! i) (terminals ! i) (prob_sel ! i)) [0..<B];
              dmu = map (\<lambda>i. d_m_u_row ag (rewards ! i) (terminals ! i) (prob_sel ! i)) [0..<B];
              target_histo =
                replicate B (replicate (action_dim (cfg ag)) (replicate (nat (n_atoms ag)) 0))
          in if delta_z ag = 0 \<and> 0 < B \<and> atoms ag \<noteq> [] then Inl IndexError
             else scatter_loop action_next l dml dmu [0..<B] target_histo)"

subsection \<open>Binary64 rounding\<close>

text \<open>
  Rounding to the nearest number with a 53-bit significand, ties to the even significand,
  as every float64 operation of Python and numpy does. The exponent is unbounded: the
  function agrees with IEEE 754 binary64 wherever the exact result is zero or has a
  magnitude in the normal range, from \<^verbatim>\<open>2 ** -1022\<close> up to the largest float;
  overflow to infinity, subnormal results and NaN are outside the model.
  \<open>expo64 a\<close> is the exponent of the last place of \<open>a > 0\<close>: the \<open>e\<close> with
  \<open>2 ^ 52 \<le> a / 2 ^ e < 2 ^ 53\<close>.
\<close>

definition round_even :: "real \<Rightarrow> int" where
  "round_even y =
     (let f = \<lfloor>y\<rfloor>; d = y - real_of_int f
      in if d < 1/2 then f else if 1/2 < d then f + 1 else if even f then f else f + 1)"

definition expo64 :: "real \<Rightarrow> int" where
  "expo64 a = (if 1 \<le> a then bitlen \<lfloor>a\<rfloor> - 53 else - bitlen (\<lceil>1 / a\<rceil> - 1) - 52)"

definition fl64 :: "real \<Rightarrow> real" where
  "fl64 x =
     (if x = 0 then 0
      else let e = expo64 \<bar>x\<bar>
           in sgn x * real_of_int (round_even (\<bar>x\<bar> * 2 powi (- e))) * 2 powi e)"

subsection \<open>Construction and bin coordinates in binary64\<close>

text \<open>
  \<^verbatim>\<open>np.linspace\<close> step by step as in \<open>linspace\<close>, with the rounding of each
  operation: \<^verbatim>\<open>start * 1.0\<close> and \<^verbatim>\<open>stop * 1.0\<close>, \<^verbatim>\<open>delta = stop - start\<close>,
  \<^verbatim>\<open>step = delta / div\<close>, \<^verbatim>\<open>y * step\<close> and \<^verbatim>\<open>y + start\<close> entry by entry; the
  last entry is overwritten with \<^verbatim>\<open>stop\<close>. \<open>init64\<close> is \<^verbatim>\<open>__init__\<close> with it, and
  \<^verbatim>\<open>delta_z = (Vmax - Vmin) / float(n_atoms - 1)\<close> rounded after the subtraction and
  after the division. The rows are lines 80-89 for one batch item: the product of the
  discount and an atom, the sum with the reward, the clipping (exact), the subtraction of
  \<^verbatim>\<open>Vmin\<close> and the division by \<^verbatim>\<open>delta_z\<close>, each rounded; floor and ceiling are
  exact.
\<close>

definition linspace64 :: "real \<Rightarrow> real \<Rightarrow> int \<Rightarrow> py_error + real list" where
  "linspace64 start stop num =
     (if num < 0 then Inl ValueError
      else
        let dv = fl64 (real_of_int (num - 1));
            start1 = fl64 start;
            stop1 = fl64 stop;
            delta = fl64 (stop1 - start1);
            y = map (\<lambda>k. fl64 (real k)) [0..<nat num]
        in if num > 1 then
             (let step = fl64 (delta / dv);
                  y1 = (if step = 0 then map (\<lambda>k. fl64 (fl64 (k / dv) * delta)) y
                        else map (\<lambda>k. fl64 (k * step)) y);
                  y2 = map (\<lambda>v. fl64 (v + start1)) y1
              in Inr (y2[nat num - 1 := stop1]))
           else Inr (map (\<lambda>k. fl64 (fl64 (k * delta) + start1)) y))"

definition init64 :: "config \<Rightarrow> py_error + agent" where
  "init64 c =
     (case linspace64 (Categorical_Vmin c) (Categorical_Vmax c) (Categorical_n_atoms c) of
        Inl e \<Rightarrow> Inl e
      | Inr zs \<Rightarrow>
          if fl64 (real_of_int (Categorical_n_atoms c - 1)) = 0 then Inl ZeroDivisionError
          else Inr \<lparr> cfg = c,
                     n_atoms = Categorical_n_atoms c,
                     vmin = Categorical_Vmin c,
                     vmax = Categorical_Vmax c,
                     atoms = zs,
                     delta_z = fl64 (fl64 (Categorical_Vmax c - Categorical_Vmin c)
                                / fl64 (real_of_int (Categorical_n_atoms c - 1))) \<rparr>)"





subsection \<open>The agent loop \<^verbatim>\<open>transition\<close>\<close>

text \<open>
  The part of the agent that \<^verbatim>\<open>transition\<close> mutates. The environment, the
  exploration policy and the sampling of the replay are collaborators: \<open>'e\<close> is their
  state (environment state, current observation, random generator), \<open>'w\<close> the weights of
  a network, \<open>'t\<close> a transition record. \<open>set_weights_log\<close> is a ghost field recording the
  value of \<^verbatim>\<open>total_steps\<close> at every call of \<^verbatim>\<open>target_network.set_weights\<close>.
\<close>

record ('w, 'e, 't) loop_state =
  total_steps :: nat
  replay_buffer :: "'t list"
  actor_network :: 'w
  target_network :: 'w
  envs :: 'e
  set_weights_log :: "nat list"

record ('w, 'e, 't) collaborators =
  env_reset :: "'e \<Rightarrow> 'e"
  act_and_step :: "'w \<Rightarrow> nat \<Rightarrow> 'e \<Rightarrow> 'e \<times> 't \<times> bool"
  train_by_replay :: "'w \<Rightarrow> 'w \<Rightarrow> 't list \<Rightarrow> 'e \<Rightarrow> 'e \<times> 'w"

text \<open>
  Lines 126-154, one pass of the inner loop in episode \<open>each_ep\<close>; the result carries the
  \<^verbatim>\<open>done\<close> flag of the environment. \<open>act_and_step\<close> stands for lines 131-140
  (prediction, epsilon-greedy action, environment step) and yields the record to store;
  \<open>train_by_replay\<close> stands for the call of line 149 and yields the actor weights after
  the fit. An exception raised by either ends the run and is outside this model of the loop.
\<close>

definition step_body ::
  "('w, 'e, 't) collaborators \<Rightarrow> config \<Rightarrow> nat \<Rightarrow> ('w, 'e, 't) loop_state
     \<Rightarrow> ('w, 'e, 't) loop_state \<times> bool" where
  "step_body K c each_ep s =
     (let s1 = s\<lparr>total_steps := total_steps s + 1\<rparr>;
          (e1, rec, done) = act_and_step K (actor_network s1) each_ep (envs s1);
          s2 = s1\<lparr>envs := e1, replay_buffer := replay_buffer s1 @ [rec]\<rparr>;
          s3 = (if length (replay_buffer s2) = replay_buffer_size c then
                  (let (e2, w) = train_by_replay K (actor_network s2) (target_network s2)
                                   (replay_buffer s2) (envs s2)
                   in s2\<lparr>envs := e2, actor_network := w, replay_buffer := []\<rparr>)
                else s2);
          s4 = (if total_steps s3 > weights_update_frequency c then
                  s3\<lparr>target_network := actor_network s3,
                     set_weights_log := set_weights_log s3 @ [total_steps s3]\<rparr>
                else s3)
      in (s4, done))"

text \<open>
  \<^verbatim>\<open>for step in range(self.steps)\<close> with its \<^verbatim>\<open>break\<close> on \<^verbatim>\<open>done\<close>; the first
  argument counts the passes still to run.
\<close>

fun run_steps ::
  "nat \<Rightarrow> ('w, 'e, 't) collaborators \<Rightarrow> config \<Rightarrow> nat \<Rightarrow> ('w, 'e, 't) loop_state
     \<Rightarrow> ('w, 'e, 't) loop_state" where
  "run_steps 0 K c each_ep s = s"
| "run_steps (Suc n) K c each_ep s =
     (case step_body K c each_ep s of
        (s', done) \<Rightarrow> if done then s' else run_steps n K c each_ep s')"

text \<open>\<^verbatim>\<open>for each_ep in range(self.episodes)\<close>, each episode starting with a reset.\<close>

fun run_episodes ::
  "nat \<Rightarrow> ('w, 'e, 't) collaborators \<Rightarrow> config \<Rightarrow> nat \<Rightarrow> ('w, 'e, 't) loop_state
     \<Rightarrow> ('w, 'e, 't) loop_state" where
  "run_episodes 0 K c each_ep s = s"
| "run_episodes (Suc n) K c each_ep s =
     run_episodes n K c (each_ep + 1)
       (run_steps (steps c) K c each_ep (s\<lparr>envs := env_reset K (envs s)\<rparr>))"

definition transition ::
  "('w, 'e, 't) collaborators \<Rightarrow> config \<Rightarrow> ('w, 'e, 't) loop_state \<Rightarrow> ('w, 'e, 't) loop_state" where
  "transition K c s = run_episodes (episodes c) K c 0 s"

subsection \<open>Concrete inputs\<close>

text \<open>Three atoms 0, 1, 2 with spacing 1, one batch item, two actions.\<close>

definition cfg3 :: config where
  "cfg3 = \<lparr> Categorical_n_atoms = 3, Categorical_Vmin = 0, Categorical_Vmax = 2,
            batch_size = 1, action_dim = 2, discount_rate = 1, replay_buffer_size = 10,
            weights_update_frequency = 1, episodes = 1, steps = 3 \<rparr>"

definition agent3 :: agent where
  "agent3 = \<lparr> cfg = cfg3, n_atoms = 3, vmin = 0, vmax = 2, atoms = [0, 1, 2], delta_z = 1 \<rparr>"

text \<open>A configuration with \<^verbatim>\<open>Vmin = Vmax\<close>.\<close>

definition cfg_flat :: config where
  "cfg_flat = \<lparr> Categorical_n_atoms = 2, Categorical_Vmin = 0, Categorical_Vmax = 0,
               batch_size = 1, action_dim = 2, discount_rate = 1, replay_buffer_size = 10,
               weights_update_frequency = 1, episodes = 1, steps = 3 \<rparr>"

text \<open>
  Collaborators for running the loop: an environment that never reports \<^verbatim>\<open>done\<close>,
  and a training step that increments a weight counter.
\<close>

definition never_done :: "(nat, unit, unit) collaborators" where
  "never_done = \<lparr> env_reset = (\<lambda>e. e),
                  act_and_step = (\<lambda>w ep e. (e, (), False)),
                  train_by_replay = (\<lambda>wa wt buf e. (e, wa + 1)) \<rparr>"

definition start_state :: "(nat, unit, unit) loop_state" where
  "start_state = \<lparr> total_steps = 0, replay_buffer = [], actor_network = 0,
                   target_network = 0, envs = (), set_weights_log = [] \<rparr>"



definition cfg_ulp :: config where
  "cfg_ulp = \<lparr> Categorical_n_atoms = 3, Categorical_Vmin = 1,
              Categorical_Vmax = 4503599627370497 / 4503599627370496,
              batch_size = 1, action_dim = 2, discount_rate = 1, replay_buffer_size = 10,
              weights_update_frequency = 1, episodes = 1, steps = 3 \<rparr>"

definition cfg4 :: config where
  "cfg4 = \<lparr> Categorical_n_atoms = 4, Categorical_Vmin = 0, Categorical_Vmax = 1,
            batch_size = 1, action_dim = 2, discount_rate = 1, replay_buffer_size = 10,
            weights_update_frequency = 1, episodes = 1, steps = 3 \<rparr>"

text \<open>
  Three atoms between 1 and the next float above 1, and four atoms on \<^verbatim>\<open>[0, 1]\<close>, again
  with the binary64 values.
\<close>

definition agent_ulp :: agent where
  "agent_ulp = \<lparr> cfg = cfg_ulp, n_atoms = 3, vmin = 1,
                  vmax = 4503599627370497 / 4503599627370496,
                  atoms = [1, 1, 4503599627370497 / 4503599627370496],
                  delta_z = 1 / 9007199254740992 \<rparr>"

definition agent4 :: agent where
  "agent4 = \<lparr> cfg = cfg4, n_atoms = 4, vmin = 0, vmax = 1,
              atoms = [0, 6004799503160661 / 18014398509481984,
                       6004799503160661 / 9007199254740992, 1],
              delta_z = 6004799503160661 / 18014398509481984 \<rparr>"

subsection \<open>Shape of a histogram tensor\<close>

text \<open>
  A tensor of shape \<^verbatim>\<open>(B, A, N)\<close> as nested lists; used to state what the loop of
  lines 105-108 preserves.
\<close>

definition histo_shape :: "nat \<Rightarrow> nat \<Rightarrow> nat \<Rightarrow> real list list list \<Rightarrow> bool" where
  "histo_shape B A N th \<longleftrightarrow>
     length th = B \<and> list_all (\<lambda>item. length item = A \<and> list_all (\<lambda>row. length row = N) item) th"

section \<open>Properties\<close>

subsection \<open>The support\<close>

lemma linspace_many:
  assumes "2 \<le> n"
  shows "\<exists>zs. linspace a b n = Inr zs \<and> length zs = nat n \<and>
           (\<forall>i<nat n. zs ! i = a + real i * ((b - a) / real_of_int (n - 1)))"
proof -
  let ?st = "(b - a) / real_of_int (n - 1)"
  let ?y = "map real [0..<nat n]"
  let ?y1 = "if ?st = 0 then map (\<lambda>k. k / real_of_int (n - 1) * (b - a)) ?y
             else map (\<lambda>k. k * ?st) ?y"
  let ?zs = "(map (\<lambda>v. v + a) ?y1)[nat n - 1 := b]"
  have n1: "real_of_int (n - 1) \<noteq> 0" using assms by simp
  have eq: "linspace a b n = Inr ?zs"
    using assms by (simp add: linspace_def Let_def)
  have len: "length ?zs = nat n" by simp
  have y1: "?y1 = map (\<lambda>k. k * ?st) ?y" by simp
  have last: "a + real (nat n - 1) * ?st = b"
  proof -
    have "real (nat n - 1) = real_of_int (n - 1)" using assms by (simp add: of_nat_diff)
    then show ?thesis using n1 by simp
  qed
  have nth: "?zs ! i = a + real i * ?st" if "i < nat n" for i
  proof (cases "i = nat n - 1")
    case True
    then show ?thesis using that last by (simp del: of_nat_diff)
  next
    case False
    then show ?thesis using that by (simp add: y1 del: of_nat_diff)
  qed
  show ?thesis using eq len nth by blast
qed

lemma linspace_few:
  "n = 0 \<or> n = 1 \<Longrightarrow> linspace a b n = Inr (map (\<lambda>k. k * (b - a) + a) (map real [0..<nat n]))"
  by (auto simp add: linspace_def Let_def)

lemma linspace_negative: "n < 0 \<Longrightarrow> linspace a b n = Inl ValueError"
  by (simp add: linspace_def)

lemma init_valid:
  assumes "2 \<le> Categorical_n_atoms c"
  shows "\<exists>zs. init c = Inr \<lparr> cfg = c, n_atoms = Categorical_n_atoms c,
            vmin = Categorical_Vmin c, vmax = Categorical_Vmax c, atoms = zs,
            delta_z = (Categorical_Vmax c - Categorical_Vmin c)
                        / real_of_int (Categorical_n_atoms c - 1) \<rparr> \<and>
          length zs = nat (Categorical_n_atoms c) \<and>
          (\<forall>i<nat (Categorical_n_atoms c).
              zs ! i = Categorical_Vmin c + real i *
                 ((Categorical_Vmax c - Categorical_Vmin c)
                        / real_of_int (Categorical_n_atoms c - 1)))"
proof -
  obtain zs where zs: "linspace (Categorical_Vmin c) (Categorical_Vmax c) (Categorical_n_atoms c) = Inr zs"
    "length zs = nat (Categorical_n_atoms c)"
    "\<forall>i<nat (Categorical_n_atoms c).
              zs ! i = Categorical_Vmin c + real i *
                 ((Categorical_Vmax c - Categorical_Vmin c)
                        / real_of_int (Categorical_n_atoms c - 1))"
    using linspace_many[OF assms] by blast
  have "real_of_int (Categorical_n_atoms c - 1) \<noteq> 0" using assms by simp
  then show ?thesis using zs by (simp add: init_def)
qed

text \<open>
  In exact arithmetic the support of a valid configuration is strictly increasing from
  \<^verbatim>\<open>Vmin\<close> to \<^verbatim>\<open>Vmax\<close> with the spacing \<^verbatim>\<open>delta_z\<close>. Order and spacing of
  the float64 atoms are the subject of the section on binary64 below.
\<close>

lemma init_support_exact:
  assumes "2 \<le> Categorical_n_atoms c" and "Categorical_Vmin c < Categorical_Vmax c"
  shows "\<exists>ag. init c = Inr ag \<and>
           length (atoms ag) = nat (Categorical_n_atoms c) \<and>
           atoms ag ! 0 = Categorical_Vmin c \<and>
           atoms ag ! (nat (Categorical_n_atoms c) - 1) = Categorical_Vmax c \<and>
           delta_z ag = (Categorical_Vmax c - Categorical_Vmin c)
                          / real_of_int (Categorical_n_atoms c - 1) \<and>
           (\<forall>i. Suc i < nat (Categorical_n_atoms c) \<longrightarrow>
                  atoms ag ! Suc i - atoms ag ! i = delta_z ag) \<and>
           sorted_wrt (<) (atoms ag)"
proof -
  let ?n = "Categorical_n_atoms c"
  let ?d = "(Categorical_Vmax c - Categorical_Vmin c) / real_of_int (?n - 1)"
  obtain zs where zs: "init c = Inr \<lparr> cfg = c, n_atoms = ?n,
            vmin = Categorical_Vmin c, vmax = Categorical_Vmax c, atoms = zs, delta_z = ?d \<rparr>"
     and len: "length zs = nat ?n"
     and nth: "\<forall>i<nat ?n. zs ! i = Categorical_Vmin c + real i * ?d"
    using init_valid[OF assms(1)] by blast
  have dpos: "0 < ?d" using assms by simp
  have n1: "real_of_int (?n - 1) \<noteq> 0" using assms by simp
  have first: "zs ! 0 = Categorical_Vmin c" using nth assms by simp
  have "real (nat ?n - 1) = real_of_int (?n - 1)" using assms by (simp add: of_nat_diff)
  moreover have "nat ?n - 1 < nat ?n" using assms by simp
  ultimately have last: "zs ! (nat ?n - 1) = Categorical_Vmax c"
    using nth n1 by (simp del: of_nat_diff)
  have gap: "zs ! Suc i - zs ! i = ?d" if "Suc i < nat ?n" for i
  proof -
    have "zs ! Suc i = Categorical_Vmin c + real (Suc i) * ?d" using nth that by blast
    moreover have "zs ! i = Categorical_Vmin c + real i * ?d" using nth that by simp
    ultimately have "zs ! Suc i - zs ! i = real (Suc i) * ?d - real i * ?d" by linarith
    also have "\<dots> = (real (Suc i) - real i) * ?d" by (simp only: left_diff_distrib)
    also have "\<dots> = ?d" by simp
    finally show ?thesis .
  qed
  have incr: "sorted_wrt (<) zs"
  proof -
    have "zs ! i < zs ! j" if "i < j" "j < length zs" for i j
    proof -
      have "zs ! i = Categorical_Vmin c + real i * ?d" using nth that len by simp
      moreover have "zs ! j = Categorical_Vmin c + real j * ?d" using nth that len by simp
      moreover have "real i * ?d < real j * ?d"
      proof (rule mult_strict_right_mono)
        show "real i < real j" using that by simp
        show "0 < ?d" by (rule dpos)
      qed
      ultimately show ?thesis by linarith
    qed
    then show ?thesis by (simp add: sorted_wrt_iff_nth_less)
  qed
  show ?thesis using zs len first last gap incr by simp
qed

text \<open>
  Claim C9, as stated, asks for an error on \<^verbatim>\<open>Vmax <= Vmin\<close>. The construction has
  no such check: with \<^verbatim>\<open>Vmin = Vmax = 0\<close> and two atoms it returns an agent whose
  atoms coincide and whose \<^verbatim>\<open>delta_z\<close> is zero.
\<close>

theorem init_flat_succeeds:
  "init cfg_flat = Inr \<lparr> cfg = cfg_flat, n_atoms = 2, vmin = 0, vmax = 0, atoms = [0, 0],
                          delta_z = 0 \<rparr>"
  by code_simp

text \<open>
  Claim C9, amended. The construction validates nothing. A negative \<^verbatim>\<open>n_atoms\<close> is
  rejected by \<^verbatim>\<open>np.linspace\<close> (ValueError), \<^verbatim>\<open>n_atoms = 1\<close> by the float
  division (ZeroDivisionError); for \<^verbatim>\<open>n_atoms = 0\<close> and for \<^verbatim>\<open>n_atoms >= 2\<close>
  it succeeds whatever \<^verbatim>\<open>Vmin\<close> and \<^verbatim>\<open>Vmax\<close> are, with
  \<^verbatim>\<open>delta_z = (Vmax - Vmin) / (n_atoms - 1)\<close>.
\<close>

theorem init_no_validation:
  "(Categorical_n_atoms c < 0 \<longrightarrow> init c = Inl ValueError) \<and>
   (Categorical_n_atoms c = 1 \<longrightarrow> init c = Inl ZeroDivisionError) \<and>
   (Categorical_n_atoms c = 0 \<or> 2 \<le> Categorical_n_atoms c \<longrightarrow>
      (\<exists>zs. init c = Inr \<lparr> cfg = c, n_atoms = Categorical_n_atoms c,
            vmin = Categorical_Vmin c, vmax = Categorical_Vmax c, atoms = zs,
            delta_z = (Categorical_Vmax c - Categorical_Vmin c)
                        / real_of_int (Categorical_n_atoms c - 1) \<rparr> \<and>
          length zs = nat (Categorical_n_atoms c)))"
proof (intro conjI impI)
  assume "Categorical_n_atoms c < 0"
  then show "init c = Inl ValueError" by (simp add: init_def linspace_negative)
next
  assume "Categorical_n_atoms c = 1"
  then show "init c = Inl ZeroDivisionError" by (simp add: init_def linspace_few)
next
  assume "Categorical_n_atoms c = 0 \<or> 2 \<le> Categorical_n_atoms c"
  then show "\<exists>zs. init c = Inr \<lparr> cfg = c, n_atoms = Categorical_n_atoms c,
            vmin = Categorical_Vmin c, vmax = Categorical_Vmax c, atoms = zs,
            delta_z = (Categorical_Vmax c - Categorical_Vmin c)
                        / real_of_int (Categorical_n_atoms c - 1) \<rparr> \<and>
          length zs = nat (Categorical_n_atoms c)"
  proof
    assume "Categorical_n_atoms c = 0"
    then show ?thesis by (simp add: init_def linspace_few)
  next
    assume "2 \<le> Categorical_n_atoms c"
    from init_valid[OF this] show ?thesis by blast
  qed
qed

theorem init_no_validation_witness:
  "init (cfg_flat\<lparr>Categorical_n_atoms := 1\<rparr>) = Inl ZeroDivisionError \<and>
   init (cfg_flat\<lparr>Categorical_n_atoms := - 1\<rparr>) = Inl ValueError \<and>
   (\<exists>zs. init cfg_flat = Inr \<lparr> cfg = cfg_flat, n_atoms = 2, vmin = 0, vmax = 0, atoms = zs,
                               delta_z = 0 \<rparr> \<and> length zs = 2)"
  using init_no_validation[of "cfg_flat\<lparr>Categorical_n_atoms := 1\<rparr>"]
        init_no_validation[of "cfg_flat\<lparr>Categorical_n_atoms := - 1\<rparr>"]
        init_no_validation[of cfg_flat]
  by (simp add: cfg_flat_def)

subsection \<open>Greedy selection\<close>

lemma argmax_from_first_max:
  assumes "i = length pre" "mi < length pre" "pre ! mi = mp"
    and "\<forall>j<length pre. pre ! j \<le> mp" and "\<forall>j<mi. pre ! j < mp"
  shows "argmax_from xs i mp mi < length (pre @ xs) \<and>
         (\<forall>j<length (pre @ xs). (pre @ xs) ! j \<le> (pre @ xs) ! argmax_from xs i mp mi) \<and>
         (\<forall>j<argmax_from xs i mp mi. (pre @ xs) ! j < (pre @ xs) ! argmax_from xs i mp mi)"
  using assms
proof (induction xs arbitrary: pre i mp mi)
  case Nil
  then show ?case by simp
next
  case (Cons x xs)
  let ?pre = "pre @ [x]"
  have app: "pre @ x # xs = ?pre @ xs" by simp
  show ?case
  proof (cases "mp < x")
    case True
    have ih: "argmax_from xs (i + 1) x i < length (?pre @ xs) \<and>
         (\<forall>j<length (?pre @ xs). (?pre @ xs) ! j \<le> (?pre @ xs) ! argmax_from xs (i + 1) x i) \<and>
         (\<forall>j<argmax_from xs (i + 1) x i. (?pre @ xs) ! j < (?pre @ xs) ! argmax_from xs (i + 1) x i)"
    proof (rule Cons.IH)
      show "i + 1 = length ?pre" using Cons.prems(1) by simp
      show "i < length ?pre" using Cons.prems(1) by simp
      show "?pre ! i = x" using Cons.prems(1) by simp
      show "\<forall>j<length ?pre. ?pre ! j \<le> x"
        using Cons.prems(4) True by (auto simp: nth_append less_Suc_eq)
      show "\<forall>j<i. ?pre ! j < x"
        using Cons.prems(1,4) True by (auto simp: nth_append)
    qed
    have eq: "argmax_from (x # xs) i mp mi = argmax_from xs (i + 1) x i"
      using True by simp
    show ?thesis unfolding app eq by (rule ih)
  next
    case False
    have ih: "argmax_from xs (i + 1) mp mi < length (?pre @ xs) \<and>
         (\<forall>j<length (?pre @ xs). (?pre @ xs) ! j \<le> (?pre @ xs) ! argmax_from xs (i + 1) mp mi) \<and>
         (\<forall>j<argmax_from xs (i + 1) mp mi. (?pre @ xs) ! j < (?pre @ xs) ! argmax_from xs (i + 1) mp mi)"
    proof (rule Cons.IH)
      show "i + 1 = length ?pre" using Cons.prems(1) by simp
      show "mi < length ?pre" using Cons.prems(2) by simp
      show "?pre ! mi = mp" using Cons.prems(2,3) by (simp add: nth_append)
      show "\<forall>j<length ?pre. ?pre ! j \<le> mp"
        using Cons.prems(4) False by (auto simp: nth_append less_Suc_eq)
      show "\<forall>j<mi. ?pre ! j < mp"
        using Cons.prems(2,5) by (auto simp: nth_append)
    qed
    have eq: "argmax_from (x # xs) i mp mi = argmax_from xs (i + 1) mp mi"
      using False by simp
    show ?thesis unfolding app eq by (rule ih)
  qed
qed

lemma argmax_first_max:
  assumes "q \<noteq> []"
  shows "\<exists>k. argmax q = Inr k \<and> k < length q \<and> (\<forall>j<length q. q ! j \<le> q ! k) \<and>
             (\<forall>j<k. q ! j < q ! k)"
proof -
  obtain x xs where q: "q = x # xs" using assms by (cases q) auto
  have "argmax_from xs 1 x 0 < length ([x] @ xs) \<and>
         (\<forall>j<length ([x] @ xs). ([x] @ xs) ! j \<le> ([x] @ xs) ! argmax_from xs 1 x 0) \<and>
         (\<forall>j<argmax_from xs 1 x 0. ([x] @ xs) ! j < ([x] @ xs) ! argmax_from xs 1 x 0)"
    by (rule argmax_from_first_max) simp_all
  then show ?thesis by (simp add: q argmax_def)
qed

lemma argmax_empty: "argmax [] = Inl ValueError"
  by (simp add: argmax_def)

lemma argmax_rows_nth:
  "argmax_rows qs = Inr ks \<Longrightarrow> length ks = length qs \<and> (\<forall>b<length qs. argmax (qs ! b) = Inr (ks ! b))"
proof (induction qs arbitrary: ks)
  case Nil
  then show ?case by simp
next
  case (Cons q qs)
  from Cons.prems obtain k ks' where k: "argmax q = Inr k" and ks': "argmax_rows qs = Inr ks'"
    and ks: "ks = k # ks'"
    by (auto split: sum.splits)
  from Cons.IH[OF ks'] have "length ks' = length qs" "\<forall>b<length qs. argmax (qs ! b) = Inr (ks' ! b)"
    by simp_all
  then show ?case using k ks by (auto simp: nth_Cons split: nat.splits)
qed

lemma argmax_rows_total:
  "\<forall>q\<in>set qs. q \<noteq> [] \<Longrightarrow> \<exists>ks. argmax_rows qs = Inr ks"
proof (induction qs)
  case Nil
  then show ?case by simp
next
  case (Cons q qs)
  then obtain ks where "argmax_rows qs = Inr ks" by auto
  moreover obtain k where "argmax q = Inr k" using argmax_first_max[of q] Cons.prems by auto
  ultimately show ?case by simp
qed

text \<open>
  Claim C7. Both the next-action selection of \<^verbatim>\<open>train_by_replay\<close> and the action of
  \<^verbatim>\<open>eval_step\<close> return, for a non-empty row of action values, an index that attains
  the maximum of the row and is preceded only by strictly smaller values: the first maximum,
  so of two equal values the lower index wins.
\<close>

theorem first_max_selection:
  "((\<forall>item\<in>set prob_next. item \<noteq> []) \<longrightarrow>
      (\<exists>action_next. select_action_next ag prob_next = Inr action_next \<and>
         length action_next = length prob_next \<and>
         (\<forall>b<length prob_next.
            action_next ! b < length (q_values ag prob_next ! b) \<and>
            (\<forall>j<length (q_values ag prob_next ! b).
               q_values ag prob_next ! b ! j \<le> q_values ag prob_next ! b ! (action_next ! b)) \<and>
            (\<forall>j<action_next ! b.
               q_values ag prob_next ! b ! j < q_values ag prob_next ! b ! (action_next ! b))))) \<and>
   (action_prob \<noteq> [] \<and> action_prob ! 0 \<noteq> [] \<longrightarrow>
      (\<exists>a. eval_action ag action_prob = Inr a \<and>
         a < length (q_values ag action_prob ! 0) \<and>
         (\<forall>j<length (q_values ag action_prob ! 0).
            q_values ag action_prob ! 0 ! j \<le> q_values ag action_prob ! 0 ! a) \<and>
         (\<forall>j<a. q_values ag action_prob ! 0 ! j < q_values ag action_prob ! 0 ! a)))"
proof (rule conjI; rule impI)
  assume ne: "\<forall>item\<in>set prob_next. item \<noteq> []"
  let ?Q = "q_values ag prob_next"
  have "\<forall>q\<in>set ?Q. q \<noteq> []" using ne by (auto simp: q_values_def)
  from argmax_rows_total[OF this] obtain action_next
    where sel: "select_action_next ag prob_next = Inr action_next"
    by (auto simp: select_action_next_def)
  have rows: "length action_next = length ?Q"
    "\<forall>b<length ?Q. argmax (?Q ! b) = Inr (action_next ! b)"
    using argmax_rows_nth[of ?Q action_next] sel by (simp_all add: select_action_next_def)
  have lenQ: "length ?Q = length prob_next" by (simp add: q_values_def)
  have len: "length action_next = length prob_next" using rows(1) lenQ by simp
  have "\<forall>b<length prob_next.
         action_next ! b < length (?Q ! b) \<and>
         (\<forall>j<length (?Q ! b). ?Q ! b ! j \<le> ?Q ! b ! (action_next ! b)) \<and>
         (\<forall>j<action_next ! b. ?Q ! b ! j < ?Q ! b ! (action_next ! b))"
  proof (intro allI impI)
    fix b assume b: "b < length prob_next"
    then have am: "argmax (?Q ! b) = Inr (action_next ! b)" using rows(2) lenQ by simp
    then have "?Q ! b \<noteq> []" using argmax_empty by auto
    from argmax_first_max[OF this] am
    show "action_next ! b < length (?Q ! b) \<and>
         (\<forall>j<length (?Q ! b). ?Q ! b ! j \<le> ?Q ! b ! (action_next ! b)) \<and>
         (\<forall>j<action_next ! b. ?Q ! b ! j < ?Q ! b ! (action_next ! b))" by auto
  qed
  with len sel show "\<exists>action_next. select_action_next ag prob_next = Inr action_next \<and>
         length action_next = length prob_next \<and>
         (\<forall>b<length prob_next.
            action_next ! b < length (?Q ! b) \<and>
            (\<forall>j<length (?Q ! b). ?Q ! b ! j \<le> ?Q ! b ! (action_next ! b)) \<and>
            (\<forall>j<action_next ! b. ?Q ! b ! j < ?Q ! b ! (action_next ! b)))" by blast
next
  assume ne: "action_prob \<noteq> [] \<and> action_prob ! 0 \<noteq> []"
  let ?Q = "q_values ag action_prob"
  from ne obtain item rest where ap: "action_prob = item # rest" and item: "item \<noteq> []"
    by (cases action_prob) auto
  define q where "q = map (\<lambda>p. dot p (atoms ag)) item"
  have Q: "?Q = q # q_values ag rest" by (simp add: q_values_def ap q_def)
  have "q \<noteq> []" using item by (simp add: q_def)
  from argmax_first_max[OF this] obtain a where a: "argmax q = Inr a" "a < length q"
    "\<forall>j<length q. q ! j \<le> q ! a" "\<forall>j<a. q ! j < q ! a" by blast
  have "eval_action ag action_prob = Inr a" using a(1) Q by (simp add: eval_action_def)
  then show "\<exists>a. eval_action ag action_prob = Inr a \<and>
         a < length (?Q ! 0) \<and>
         (\<forall>j<length (?Q ! 0). ?Q ! 0 ! j \<le> ?Q ! 0 ! a) \<and>
         (\<forall>j<a. ?Q ! 0 ! j < ?Q ! 0 ! a)" using a Q by auto
qed

theorem first_max_selection_witness:
  "select_action_next agent3 [[[1, 0, 0], [1, 0, 0]], [[1, 0, 0], [0, 0, 1]]] = Inr [0, 1] \<and>
   q_values agent3 [[[1, 0, 0], [1, 0, 0]], [[1, 0, 0], [0, 0, 1]]] = [[0, 0], [0, 2]] \<and>
   eval_action agent3 [[[0, 1, 0], [1/2, 0, 1/2], [1, 0, 0]]] = Inr 0 \<and>
   q_values agent3 [[[0, 1, 0], [1/2, 0, 1/2], [1, 0, 0]]] = [[1, 1, 0]] \<and>
   (\<exists>a. eval_action agent3 [[[0, 1, 0], [1/2, 0, 1/2], [1, 0, 0]]] = Inr a \<and>
        a < length (q_values agent3 [[[0, 1, 0], [1/2, 0, 1/2], [1, 0, 0]]] ! 0))"
proof -
  have s: "select_action_next agent3 [[[1, 0, 0], [1, 0, 0]], [[1, 0, 0], [0, 0, 1]]] = Inr [0, 1]"
    by code_simp
  have e: "eval_action agent3 [[[0, 1, 0], [1/2, 0, 1/2], [1, 0, 0]]] = Inr 0"
    by code_simp
  have q1: "q_values agent3 [[[1, 0, 0], [1, 0, 0]], [[1, 0, 0], [0, 0, 1]]] = [[0, 0], [0, 2]]"
    by code_simp
  have q2: "q_values agent3 [[[0, 1, 0], [1/2, 0, 1/2], [1, 0, 0]]] = [[1, 1, 0]]"
    by code_simp
  have ne: "[[[0, 1, 0], [1/2, 0, 1/2], [1, 0, 0::real]]] \<noteq> [] \<and>
            [[[0, 1, 0], [1/2, 0, 1/2], [1, 0, 0::real]]] ! 0 \<noteq> []" by simp
  from first_max_selection[of "[[[1, 0, 0], [1, 0, 0]], [[1, 0, 0], [0, 0, 1]]]" agent3
      "[[[0, 1, 0], [1/2, 0, 1/2], [1, 0, 0]]]"] ne
  have "\<exists>a. eval_action agent3 [[[0, 1, 0], [1/2, 0, 1/2], [1, 0, 0]]] = Inr a \<and>
        a < length (q_values agent3 [[[0, 1, 0], [1/2, 0, 1/2], [1, 0, 0]]] ! 0)"
    by blast
  then show ?thesis using s e q1 q2 by simp
qed

subsection \<open>Interpolation weights and clipping\<close>

lemma d_m_sum: "d_m_l b p + d_m_u b p = p"
proof (cases "\<lfloor>b\<rfloor> = \<lceil>b\<rceil>")
  case True
  then have "d_m_l b p + d_m_u b p = (real_of_int \<lceil>b\<rceil> + 1 - b) * p + (b - real_of_int \<lceil>b\<rceil>) * p"
    by (simp add: d_m_l_def d_m_u_def)
  also have "\<dots> = p" by (simp add: algebra_simps)
  finally show ?thesis .
next
  case False
  then have c: "\<lceil>b\<rceil> = \<lfloor>b\<rfloor> + 1" by (simp add: ceiling_altdef split: if_splits)
  have "d_m_l b p + d_m_u b p = (real_of_int \<lfloor>b\<rfloor> + 1 - b) * p + (b - real_of_int \<lfloor>b\<rfloor>) * p"
    using False by (simp add: d_m_l_def d_m_u_def c)
  also have "\<dots> = p" by (simp add: algebra_simps)
  finally show ?thesis .
qed

lemma length_atoms_next_row: "length (atoms_next_row ag r t) = length (atoms ag)"
  by (simp add: atoms_next_row_def)

lemma length_b_row: "length (b_row ag r t) = length (atoms ag)"
  by (simp add: b_row_def atoms_next_row_def)

text \<open>
  Claim C3. The weights \<^verbatim>\<open>u + (l == u) - b\<close> and \<^verbatim>\<open>b - l\<close> sum to one for every
  \<open>b\<close>, on a grid point or not, so \<^verbatim>\<open>d_m_l + d_m_u\<close> is the probability mass it was
  computed from, entry by entry.
\<close>

theorem interpolation_weights_sum:
  "d_m_l b 1 + d_m_u b 1 = 1 \<and> d_m_l b p + d_m_u b p = p \<and>
   (length ps = length (atoms ag) \<longrightarrow>
      (\<forall>j<length ps. d_m_l_row ag r t ps ! j + d_m_u_row ag r t ps ! j = ps ! j))"
proof (intro conjI impI allI)
  show "d_m_l b 1 + d_m_u b 1 = 1" by (rule d_m_sum)
  show "d_m_l b p + d_m_u b p = p" by (rule d_m_sum)
next
  fix j assume "length ps = length (atoms ag)" "j < length ps"
  then show "d_m_l_row ag r t ps ! j + d_m_u_row ag r t ps ! j = ps ! j"
    by (simp add: d_m_l_row_def d_m_u_row_def length_b_row d_m_sum)
qed

theorem interpolation_weights_sum_witness:
  "d_m_l 2 (1/4) + d_m_u 2 (1/4) = 1/4 \<and> \<lfloor>2::real\<rfloor> = \<lceil>2::real\<rceil> \<and>
   b_row agent3 (1/2) False = [1/2, 3/2, 2] \<and>
   d_m_l_row agent3 (1/2) False [1/4, 1/2, 1/4] ! 2 + d_m_u_row agent3 (1/2) False [1/4, 1/2, 1/4] ! 2
     = [1/4, 1/2, 1/4] ! 2 \<and>
   d_m_l_row agent3 (1/2) False [1/4, 1/2, 1/4] ! 0 + d_m_u_row agent3 (1/2) False [1/4, 1/2, 1/4] ! 0
     = [1/4, 1/2, 1/4] ! 0"
proof -
  have len: "length [1/4, 1/2, 1/4 :: real] = length (atoms agent3)" by (simp add: agent3_def)
  have b: "b_row agent3 (1/2) False = [1/2, 3/2, 2]" by code_simp
  from interpolation_weights_sum[of 2 "1/4" "[1/4, 1/2, 1/4]" agent3 "1/2" False] len
  have "d_m_l 2 (1/4) + d_m_u 2 (1/4) = 1/4" and
     all: "\<forall>j<length [1/4, 1/2, 1/4 :: real]. d_m_l_row agent3 (1/2) False [1/4, 1/2, 1/4] ! j +
        d_m_u_row agent3 (1/2) False [1/4, 1/2, 1/4] ! j = [1/4, 1/2, 1/4] ! j"
    by blast+
  moreover have "(2::nat) < length [1/4, 1/2, 1/4 :: real]" "(0::nat) < length [1/4, 1/2, 1/4 :: real]"
    by simp_all
  ultimately show ?thesis using b by (metis ceiling_numeral floor_numeral)
qed

text \<open>
  Claim C6. With \<^verbatim>\<open>Vmin <= Vmax\<close>, every shifted atom lies in \<^verbatim>\<open>[Vmin, Vmax]\<close>
  after clipping, for every reward, discount rate and terminal flag; no entry is dropped,
  and a raw value outside the interval becomes the nearer endpoint.
\<close>

theorem clipped_within_support:
  assumes "vmin ag \<le> vmax ag" and "j < length (atoms ag)"
  shows "length (atoms_next_row ag r t) = length (atoms ag) \<and>
         vmin ag \<le> atoms_next_row ag r t ! j \<and> atoms_next_row ag r t ! j \<le> vmax ag \<and>
         atoms_next_row ag r t ! j =
           (let raw = r + discount_rate (cfg ag) * (1 - of_bool t) * atoms ag ! j
            in if raw < vmin ag then vmin ag else if vmax ag < raw then vmax ag else raw)"
  using assms by (auto simp add: atoms_next_row_def clip_def Let_def min_def max_def)

theorem clipped_within_support_witness:
  "atoms_next_row agent3 (5/2) False = [2, 2, 2] \<and> atoms_next_row agent3 (- 3/2) False = [0, 0, 1/2] \<and>
   atoms_next_row agent3 (1/2) True = [1/2, 1/2, 1/2] \<and>
   vmin agent3 \<le> atoms_next_row agent3 (5/2) False ! 2 \<and>
   atoms_next_row agent3 (5/2) False ! 2 \<le> vmax agent3"
proof -
  have h1: "vmin agent3 \<le> vmax agent3" by (simp add: agent3_def)
  have h2: "2 < length (atoms agent3)" by (simp add: agent3_def)
  have e1: "atoms_next_row agent3 (5/2) False = [2, 2, 2]" by code_simp
  have e2: "atoms_next_row agent3 (- 3/2) False = [0, 0, 1/2]" by code_simp
  have e3: "atoms_next_row agent3 (1/2) True = [1/2, 1/2, 1/2]" by code_simp
  from clipped_within_support[OF h1 h2, of "5/2" False]
  have "vmin agent3 \<le> atoms_next_row agent3 (5/2) False ! 2 \<and>
        atoms_next_row agent3 (5/2) False ! 2 \<le> vmax agent3" by blast
  then show ?thesis using e1 e2 e3 by blast
qed

subsection \<open>Synchronisation of the target network\<close>

lemma step_body_total_steps: "total_steps (fst (step_body K c ep s)) = Suc (total_steps s)"
  by (simp add: step_body_def Let_def split: prod.splits)

lemma step_body_target:
  "target_network (fst (step_body K c ep s)) =
     (if weights_update_frequency c < Suc (total_steps s)
      then actor_network (fst (step_body K c ep s)) else target_network s)"
  by (simp add: step_body_def Let_def split: prod.splits)

lemma step_body_log:
  "set_weights_log (fst (step_body K c ep s)) =
     set_weights_log s @ (if weights_update_frequency c < Suc (total_steps s)
                          then [Suc (total_steps s)] else [])"
  by (simp add: step_body_def Let_def split: prod.splits)

lemma filter_upt_step:
  assumes "Suc a \<le> b"
  shows "filter P [Suc a..<Suc b] = (if P (Suc a) then [Suc a] else []) @ filter P [Suc (Suc a)..<Suc b]"
proof -
  have "[Suc a..<Suc b] = Suc a # [Suc (Suc a)..<Suc b]" using assms by (simp add: upt_conv_Cons)
  then show ?thesis by simp
qed

lemma run_steps_log:
  "total_steps s \<le> total_steps (run_steps n K c ep s) \<and>
   set_weights_log (run_steps n K c ep s) =
     set_weights_log s @ filter (\<lambda>k. weights_update_frequency c < k)
        [Suc (total_steps s)..<Suc (total_steps (run_steps n K c ep s))]"
proof (induction n arbitrary: s)
  case 0
  then show ?case by simp
next
  case (Suc n)
  obtain s' done' where sb: "step_body K c ep s = (s', done')" by (cases "step_body K c ep s")
  have ts: "total_steps s' = Suc (total_steps s)" using step_body_total_steps[of K c ep s] sb by simp
  have lg: "set_weights_log s' = set_weights_log s @
      (if weights_update_frequency c < Suc (total_steps s) then [Suc (total_steps s)] else [])"
    using step_body_log[of K c ep s] sb by simp
  show ?case
  proof (cases done')
    case True
    then have r: "run_steps (Suc n) K c ep s = s'" using sb by simp
    show ?thesis unfolding r using ts lg by simp
  next
    case False
    then have r: "run_steps (Suc n) K c ep s = run_steps n K c ep s'" using sb by simp
    have ih: "total_steps s' \<le> total_steps (run_steps n K c ep s') \<and>
       set_weights_log (run_steps n K c ep s') =
         set_weights_log s' @ filter (\<lambda>k. weights_update_frequency c < k)
            [Suc (total_steps s')..<Suc (total_steps (run_steps n K c ep s'))]"
      by (rule Suc.IH)
    have le: "Suc (total_steps s) \<le> total_steps (run_steps n K c ep s')" using ih ts by simp
    show ?thesis unfolding r using ih ts lg filter_upt_step[OF le, of "\<lambda>k. weights_update_frequency c < k"]
      by simp
  qed
qed

lemma filter_upt_append:
  assumes "a \<le> b" "b \<le> d"
  shows "filter P [Suc a..<Suc b] @ filter P [Suc b..<Suc d] = filter P [Suc a..<Suc d]"
proof -
  have "[Suc a..<Suc d] = [Suc a..<Suc b] @ [Suc b..<Suc d]"
    using assms by (metis Suc_le_mono le_Suc_ex upt_add_eq_append)
  then show ?thesis by simp
qed

lemma run_episodes_log:
  "total_steps s \<le> total_steps (run_episodes n K c ep s) \<and>
   set_weights_log (run_episodes n K c ep s) =
     set_weights_log s @ filter (\<lambda>k. weights_update_frequency c < k)
        [Suc (total_steps s)..<Suc (total_steps (run_episodes n K c ep s))]"
proof (induction n arbitrary: s ep)
  case 0
  then show ?case by simp
next
  case (Suc n)
  let ?s0 = "s\<lparr>envs := env_reset K (envs s)\<rparr>"
  let ?s1 = "run_steps (steps c) K c ep ?s0"
  let ?s2 = "run_episodes n K c (ep + 1) ?s1"
  have r: "run_episodes (Suc n) K c ep s = ?s2" by simp
  have a: "total_steps s \<le> total_steps ?s1"
    "set_weights_log ?s1 = set_weights_log s @ filter (\<lambda>k. weights_update_frequency c < k)
        [Suc (total_steps s)..<Suc (total_steps ?s1)]"
    using run_steps_log[of ?s0 "steps c" K c ep] by simp_all
  have b: "total_steps ?s1 \<le> total_steps ?s2"
    "set_weights_log ?s2 = set_weights_log ?s1 @ filter (\<lambda>k. weights_update_frequency c < k)
        [Suc (total_steps ?s1)..<Suc (total_steps ?s2)]"
    using Suc.IH[of ?s1 "ep + 1"] by simp_all
  show ?case unfolding r using a b filter_upt_append[OF a(1) b(1), of "\<lambda>k. weights_update_frequency c < k"]
    by simp
qed

text \<open>
  What the loop does: every pass increments \<^verbatim>\<open>total_steps\<close> and copies the actor
  weights to the target network exactly when the incremented count exceeds
  \<^verbatim>\<open>weights_update_frequency\<close>, so \<^verbatim>\<open>set_weights\<close> is called at every step above
  the threshold and at no step at or below it.
\<close>

lemma set_weights_log_transition:
  "total_steps (fst (step_body K c ep s0)) = Suc (total_steps s0) \<and>
   target_network (fst (step_body K c ep s0)) =
     (if weights_update_frequency c < Suc (total_steps s0)
      then actor_network (fst (step_body K c ep s0)) else target_network s0) \<and>
   total_steps s \<le> total_steps (transition K c s) \<and>
   set_weights_log (transition K c s) =
     set_weights_log s @ filter (\<lambda>k. weights_update_frequency c < k)
        [Suc (total_steps s)..<Suc (total_steps (transition K c s))]"
  using step_body_total_steps[of K c ep s0] step_body_target[of K c ep s0]
    run_episodes_log[of s "episodes c" K c 0]
  unfolding transition_def by simp

text \<open>
  Claim C8 asks for one synchronisation of the target network per crossing of the
  threshold, not one on every later step. The guard of lines 153-154 is evaluated on every
  pass: with \<^verbatim>\<open>weights_update_frequency = 1\<close> and three steps the loop calls
  \<^verbatim>\<open>set_weights\<close> at step 2 and again at step 3.
\<close>

theorem sync_repeats_after_threshold:
  "set_weights_log (transition never_done cfg3 start_state) = [2, 3] \<and>
   total_steps (transition never_done cfg3 start_state) = 3 \<and>
   weights_update_frequency cfg3 = 1 \<and>
   length (set_weights_log (transition never_done cfg3 start_state)) \<noteq> 1"
  by code_simp

subsection \<open>The scatter loop\<close>

lemma sum_list_bump:
  "k < length xs \<Longrightarrow> sum_list (xs[k := xs ! k + v]) = sum_list xs + (v::real)"
proof (induction xs arbitrary: k)
  case Nil
  then show ?case by simp
next
  case (Cons x xs)
  then show ?case by (cases k) simp_all
qed

lemma add_at_ok:
  assumes "length is = length vs" and "\<forall>i\<in>set is. 0 \<le> i \<and> i < int (length a)"
  shows "\<exists>a'. add_at a is vs = Inr a' \<and> length a' = length a \<and>
           sum_list a' = sum_list a + sum_list vs"
  using assms
proof (induction "is" arbitrary: a vs)
  case Nil
  then show ?case by simp
next
  case (Cons i "is")
  then obtain v vs' where vs: "vs = v # vs'" and len: "length is = length vs'"
    by (cases vs) auto
  have i: "0 \<le> i" "i < int (length a)" using Cons.prems(2) by simp_all
  let ?a = "a[nat i := a ! nat i + v]"
  have "\<forall>i\<in>set is. 0 \<le> i \<and> i < int (length ?a)" using Cons.prems(2) by simp
  from Cons.IH[OF len this] obtain a' where a': "add_at ?a is vs' = Inr a'"
    "length a' = length ?a" "sum_list a' = sum_list ?a + sum_list vs'" by blast
  have "nat i < length a" using i by simp
  then have "sum_list ?a = sum_list a + v" by (rule sum_list_bump)
  moreover have "add_at a (i # is) vs = add_at ?a is vs'" using i vs by (simp add: Let_def)
  ultimately show ?case using a' vs by simp
qed

lemma histo_shape_nth:
  "histo_shape B A N th \<Longrightarrow> k < B \<Longrightarrow> length (th ! k) = A \<and> (\<forall>a<A. length (th ! k ! a) = N)"
  by (auto simp: histo_shape_def list_all_length)

lemma histo_shape_update:
  assumes "histo_shape B A N th" "i < B" "length row = N"
  shows "histo_shape B A N (th[i := (th ! i)[a := row]])"
proof -
  have lth: "length th = B" using assms(1) by (simp add: histo_shape_def)
  have all: "\<forall>k<B. length (th ! k) = A \<and> (\<forall>a<A. length (th ! k ! a) = N)"
    using histo_shape_nth[OF assms(1)] by blast
  let ?th = "th[i := (th ! i)[a := row]]"
  have "length (?th ! k) = A \<and> (\<forall>a'<length (?th ! k). length (?th ! k ! a') = N)" if "k < B" for k
  proof (cases "k = i")
    case True
    then have e: "?th ! k = (th ! i)[a := row]" using that lth by simp
    have ii: "length (th ! i) = A" "\<forall>a<A. length (th ! i ! a) = N"
      using all assms(2) by simp_all
    show ?thesis unfolding e using ii assms(3)
      by (cases "a < length (th ! i)") (auto simp add: nth_list_update)
  next
    case False
    then have "?th ! k = th ! k" by simp
    then show ?thesis using all that by simp
  qed
  then show ?thesis using lth by (simp add: histo_shape_def list_all_length)
qed

lemma loop_body_ok:
  assumes sh: "histo_shape B A N th" and i: "i < B" and a: "an ! i < A"
    and ll: "length (l ! i) = N" and ld: "length (dml ! i) = N" and lu: "length (dmu ! i) = N"
    and rg: "\<forall>x\<in>set (l ! i). 0 \<le> x \<and> x < int N"
  shows "\<exists>row. loop_body an l dml dmu i th = Inr (th[i := (th ! i)[an ! i := row]]) \<and>
           length row = N \<and> sum_list row = sum_list (dml ! i) + sum_list (dmu ! i)"
proof -
  have lth: "length th = B" using sh by (simp add: histo_shape_def)
  have li: "length (th ! i) = A" "length (th ! i ! (an ! i)) = N"
    using histo_shape_nth[OF sh i] a by simp_all
  let ?row0 = "map (\<lambda>_. 0::real) (th ! i ! (an ! i))"
  have z: "length ?row0 = N" "sum_list ?row0 = 0" using li by simp_all
  have "\<forall>x\<in>set (l ! i). 0 \<le> x \<and> x < int (length ?row0)" using rg z by simp
  from add_at_ok[OF _ this, of "dml ! i"] ll ld
  obtain row1 where r1: "add_at ?row0 (l ! i) (dml ! i) = Inr row1" "length row1 = N"
    "sum_list row1 = sum_list (dml ! i)" using z by auto
  have "\<forall>x\<in>set (l ! i). 0 \<le> x \<and> x < int (length row1)" using rg r1 by simp
  from add_at_ok[OF _ this, of "dmu ! i"] ll lu
  obtain row2 where r2: "add_at row1 (l ! i) (dmu ! i) = Inr row2" "length row2 = N"
    "sum_list row2 = sum_list (dml ! i) + sum_list (dmu ! i)" using r1 by auto
  have "loop_body an l dml dmu i th = Inr (th[i := (th ! i)[an ! i := row2]])"
    using i a lth li r1(1) r2(1) by (simp add: loop_body_def Let_def)
  then show ?thesis using r2 by blast
qed

lemma scatter_loop_ok:
  assumes "histo_shape B A N th"
    and "\<forall>i\<in>set is. i < B \<and> an ! i < A \<and> length (l ! i) = N \<and> length (dml ! i) = N \<and>
           length (dmu ! i) = N \<and> (\<forall>x\<in>set (l ! i). 0 \<le> x \<and> x < int N)"
  shows "\<exists>th'. scatter_loop an l dml dmu is th = Inr th' \<and> histo_shape B A N th' \<and>
           (\<forall>k<B. k \<notin> set is \<longrightarrow> th' ! k = th ! k) \<and>
           (\<forall>k\<in>set is. \<forall>a<A. a \<noteq> an ! k \<longrightarrow> th' ! k ! a = th ! k ! a) \<and>
           (\<forall>k\<in>set is. sum_list (th' ! k ! (an ! k)) = sum_list (dml ! k) + sum_list (dmu ! k))"
  using assms
proof (induction "is" arbitrary: th)
  case Nil
  then show ?case by simp
next
  case (Cons i "is")
  have pi: "i < B" "an ! i < A" "length (l ! i) = N" "length (dml ! i) = N"
    "length (dmu ! i) = N" "\<forall>x\<in>set (l ! i). 0 \<le> x \<and> x < int N"
    using Cons.prems(2) by simp_all
  from loop_body_ok[OF Cons.prems(1) pi]
  obtain row where row: "loop_body an l dml dmu i th = Inr (th[i := (th ! i)[an ! i := row]])"
    "length row = N" "sum_list row = sum_list (dml ! i) + sum_list (dmu ! i)" by blast
  let ?th1 = "th[i := (th ! i)[an ! i := row]]"
  have lth: "length th = B" using Cons.prems(1) by (simp add: histo_shape_def)
  have li: "length (th ! i) = A" using histo_shape_nth[OF Cons.prems(1) pi(1)] by simp
  have sh1: "histo_shape B A N ?th1" by (rule histo_shape_update[OF Cons.prems(1) pi(1) row(2)])
  have rest: "\<forall>i\<in>set is. i < B \<and> an ! i < A \<and> length (l ! i) = N \<and> length (dml ! i) = N \<and>
           length (dmu ! i) = N \<and> (\<forall>x\<in>set (l ! i). 0 \<le> x \<and> x < int N)"
    using Cons.prems(2) by simp
  from Cons.IH[OF sh1 rest] obtain th' where th':
    "scatter_loop an l dml dmu is ?th1 = Inr th'" "histo_shape B A N th'"
    "\<forall>k<B. k \<notin> set is \<longrightarrow> th' ! k = ?th1 ! k"
    "\<forall>k\<in>set is. \<forall>a<A. a \<noteq> an ! k \<longrightarrow> th' ! k ! a = ?th1 ! k ! a"
    "\<forall>k\<in>set is. sum_list (th' ! k ! (an ! k)) = sum_list (dml ! k) + sum_list (dmu ! k)"
    by blast
  have run: "scatter_loop an l dml dmu (i # is) th = Inr th'" using row(1) th'(1) by simp
  have t1_other: "?th1 ! k = th ! k" if "k \<noteq> i" for k using that by simp
  have t1_i: "?th1 ! i = (th ! i)[an ! i := row]" using pi(1) lth by simp
  have frame: "\<forall>k<B. k \<notin> set (i # is) \<longrightarrow> th' ! k = th ! k"
    using th'(3) t1_other by auto
  have others: "\<forall>k\<in>set (i # is). \<forall>a<A. a \<noteq> an ! k \<longrightarrow> th' ! k ! a = th ! k ! a"
  proof (intro ballI allI impI)
    fix k a assume k: "k \<in> set (i # is)" and a: "a < A" "a \<noteq> an ! k"
    have kB: "k < B" using k Cons.prems(2) by auto
    have step1: "?th1 ! k ! a = th ! k ! a"
    proof (cases "k = i")
      case True
      then show ?thesis using t1_i a by simp
    next
      case False
      then show ?thesis using t1_other by simp
    qed
    show "th' ! k ! a = th ! k ! a"
    proof (cases "k \<in> set is")
      case True
      then show ?thesis using th'(4) a step1 by simp
    next
      case False
      then show ?thesis using th'(3) kB step1 by simp
    qed
  qed
  have sums: "\<forall>k\<in>set (i # is). sum_list (th' ! k ! (an ! k)) = sum_list (dml ! k) + sum_list (dmu ! k)"
  proof
    fix k assume k: "k \<in> set (i # is)"
    show "sum_list (th' ! k ! (an ! k)) = sum_list (dml ! k) + sum_list (dmu ! k)"
    proof (cases "k \<in> set is")
      case True
      then show ?thesis using th'(5) by simp
    next
      case False
      then have ki: "k = i" using k by simp
      have "th' ! i = ?th1 ! i" using th'(3) pi(1) False ki by simp
      then have "th' ! i ! (an ! i) = row" using t1_i li pi(2) by simp
      then show ?thesis using row(3) ki by simp
    qed
  qed
  show ?case using run th'(2) frame others sums by blast
qed

subsection \<open>Index ranges and the result of the projection\<close>

lemma init_fields:
  assumes "init c = Inr ag" and "2 \<le> Categorical_n_atoms c"
  shows "cfg ag = c" and "n_atoms ag = Categorical_n_atoms c"
    and "vmin ag = Categorical_Vmin c" and "vmax ag = Categorical_Vmax c"
    and "delta_z ag = (Categorical_Vmax c - Categorical_Vmin c)
                        / real_of_int (Categorical_n_atoms c - 1)"
    and "length (atoms ag) = nat (Categorical_n_atoms c)"
  using init_valid[OF assms(2)] assms(1) by auto

lemma clip_range: "lo \<le> hi \<Longrightarrow> lo \<le> clip x lo hi \<and> clip x lo hi \<le> hi"
  by (simp add: clip_def)

lemma b_row_range:
  assumes ini: "init c = Inr ag" and n: "2 \<le> Categorical_n_atoms c"
    and v: "Categorical_Vmin c < Categorical_Vmax c" and j: "j < length (atoms ag)"
  shows "0 \<le> b_row ag r t ! j \<and> b_row ag r t ! j \<le> real_of_int (Categorical_n_atoms c - 1)"
proof -
  note f = init_fields[OF ini n]
  define x where "x = atoms_next_row ag r t ! j"
  have x: "Categorical_Vmin c \<le> x" "x \<le> Categorical_Vmax c"
    using clip_range[of "Categorical_Vmin c" "Categorical_Vmax c"] v j
    by (simp_all add: x_def atoms_next_row_def f)
  define m where "m = real_of_int (Categorical_n_atoms c - 1)"
  define D where "D = Categorical_Vmax c - Categorical_Vmin c"
  have m: "0 < m" using n by (simp add: m_def)
  have D: "0 < D" using v by (simp add: D_def)
  have dz: "delta_z ag = D / m" by (simp add: f D_def m_def)
  have b0: "b_row ag r t ! j = (x - Categorical_Vmin (cfg ag)) / delta_z ag"
    using j by (simp add: b_row_def x_def length_atoms_next_row)
  have b: "b_row ag r t ! j = (x - Categorical_Vmin c) / (D / m)"
    unfolding b0 dz f(1) ..
  have "0 \<le> (x - Categorical_Vmin c) / (D / m)" using x m D by simp
  moreover have "(x - Categorical_Vmin c) / (D / m) \<le> m"
  proof -
    have "(x - Categorical_Vmin c) / (D / m) = (x - Categorical_Vmin c) / D * m" by simp
    also have "\<dots> \<le> 1 * m"
    proof (rule mult_right_mono)
      show "(x - Categorical_Vmin c) / D \<le> 1" using x D by (simp add: D_def)
      show "0 \<le> m" using m by simp
    qed
    finally show ?thesis by simp
  qed
  ultimately show ?thesis using b by (simp add: m_def)
qed

lemma index_range:
  assumes ini: "init c = Inr ag" and n: "2 \<le> Categorical_n_atoms c"
    and v: "Categorical_Vmin c < Categorical_Vmax c" and j: "j < length (atoms ag)"
  shows "0 \<le> l_row ag r t ! j \<and> l_row ag r t ! j \<le> Categorical_n_atoms c - 1 \<and>
         0 \<le> u_row ag r t ! j \<and> u_row ag r t ! j \<le> Categorical_n_atoms c - 1"
proof -
  have b: "0 \<le> b_row ag r t ! j" "b_row ag r t ! j \<le> real_of_int (Categorical_n_atoms c - 1)"
    using b_row_range[OF ini n v j] by simp_all
  have jb: "j < length (b_row ag r t)" using j by (simp add: length_b_row)
  have l: "l_row ag r t ! j = \<lfloor>b_row ag r t ! j\<rfloor>" using jb by (simp add: l_row_def)
  have u: "u_row ag r t ! j = \<lceil>b_row ag r t ! j\<rceil>" using jb by (simp add: u_row_def)
  have "0 \<le> \<lfloor>b_row ag r t ! j\<rfloor>" using b(1) by simp
  moreover have "\<lceil>b_row ag r t ! j\<rceil> \<le> Categorical_n_atoms c - 1" using b(2) by (rule ceiling_le)
  moreover have "\<lfloor>b_row ag r t ! j\<rfloor> \<le> \<lceil>b_row ag r t ! j\<rceil>" by (rule floor_le_ceiling)
  ultimately show ?thesis using l u by linarith
qed

lemma d_m_rows_sum:
  "length bs = length ps \<Longrightarrow>
     sum_list (map2 d_m_l bs ps) + sum_list (map2 d_m_u bs ps) = sum_list ps"
proof (induction bs ps rule: list_induct2)
  case Nil
  then show ?case by simp
next
  case (Cons b bs p ps)
  have "d_m_l b p + d_m_u b p = p" by (rule d_m_sum)
  then show ?case using Cons.IH by simp
qed

lemma select_ok:
  assumes sh: "shapes_ok ag P R T" and A: "0 < action_dim (cfg ag)"
  shows "\<exists>an. select_action_next ag P = Inr an \<and> length an = batch_size (cfg ag) \<and>
           (\<forall>b<batch_size (cfg ag). an ! b < action_dim (cfg ag))"
proof -
  let ?Q = "q_values ag P"
  have lenP: "length P = batch_size (cfg ag)" using sh by (simp add: shapes_ok_def)
  have items: "\<forall>b<length P. length (P ! b) = action_dim (cfg ag)"
    using sh by (simp add: shapes_ok_def list_all_length)
  have lenQ: "length ?Q = length P" by (simp add: q_values_def)
  have rowQ: "\<forall>b<length P. length (?Q ! b) = action_dim (cfg ag)"
    using items by (simp add: q_values_def)
  have "\<forall>q\<in>set ?Q. q \<noteq> []"
  proof
    fix q assume "q \<in> set ?Q"
    then obtain b where "b < length ?Q" "q = ?Q ! b" by (auto simp: in_set_conv_nth)
    then have "length q = action_dim (cfg ag)" using rowQ lenQ by simp
    then show "q \<noteq> []" using A by auto
  qed
  from argmax_rows_total[OF this] obtain an where an: "argmax_rows ?Q = Inr an" by blast
  from argmax_rows_nth[OF an] have rows: "length an = length ?Q"
    "\<forall>b<length ?Q. argmax (?Q ! b) = Inr (an ! b)" by simp_all
  have "an ! b < action_dim (cfg ag)" if "b < batch_size (cfg ag)" for b
  proof -
    have b: "b < length P" using that lenP by simp
    then have am: "argmax (?Q ! b) = Inr (an ! b)" using rows(2) lenQ by simp
    have "?Q ! b \<noteq> []" using rowQ b A by auto
    from argmax_first_max[OF this] am have "an ! b < length (?Q ! b)" by auto
    then show ?thesis using rowQ b by simp
  qed
  then show ?thesis using an rows(1) lenQ lenP by (simp add: select_action_next_def)
qed

lemma histo_shape_zeros: "histo_shape B A N (replicate B (replicate A (replicate N 0)))"
  by (simp add: histo_shape_def list_all_length)

lemma train_target_ok:
  assumes ini: "init c = Inr ag" and n: "2 \<le> Categorical_n_atoms c"
    and v: "Categorical_Vmin c < Categorical_Vmax c"
    and sh: "shapes_ok ag P R T" and A: "0 < action_dim c"
  shows "\<exists>an h. select_action_next ag P = Inr an \<and> length an = batch_size c \<and>
           train_target ag P R T = Inr h \<and>
           histo_shape (batch_size c) (action_dim c) (nat (Categorical_n_atoms c)) h \<and>
           (\<forall>b<batch_size c. an ! b < action_dim c \<and>
              (\<forall>a<action_dim c. a \<noteq> an ! b \<longrightarrow>
                  h ! b ! a = replicate (nat (Categorical_n_atoms c)) 0) \<and>
              sum_list (h ! b ! (an ! b)) = sum_list (P ! b ! (an ! b)))"
proof -
  note f = init_fields[OF ini n]
  define B where "B = batch_size c"
  define Ad where "Ad = action_dim c"
  define N where "N = length (atoms ag)"
  have Nn: "N = nat (Categorical_n_atoms c)" by (simp add: N_def f)
  have Npos: "int N = Categorical_n_atoms c" using n by (simp add: Nn)
  from select_ok[OF sh] A obtain an where an: "select_action_next ag P = Inr an"
    "length an = B" "\<forall>b<B. an ! b < Ad" by (auto simp: f B_def Ad_def)
  have lenP: "length P = B" using sh by (simp add: shapes_ok_def f B_def)
  have rowsP: "\<forall>b<B. \<forall>a<Ad. length (P ! b ! a) = N"
    using sh lenP by (simp add: shapes_ok_def list_all_length f Ad_def N_def)
  define psel where "psel = map (\<lambda>i. P ! i ! (an ! i)) [0..<B]"
  define l where "l = map (\<lambda>i. l_row ag (R ! i) (T ! i)) [0..<B]"
  define dml where "dml = map (\<lambda>i. d_m_l_row ag (R ! i) (T ! i) (psel ! i)) [0..<B]"
  define dmu where "dmu = map (\<lambda>i. d_m_u_row ag (R ! i) (T ! i) (psel ! i)) [0..<B]"
  define th0 where "th0 = replicate B (replicate Ad (replicate N (0::real)))"
  have dz: "delta_z ag \<noteq> 0" using v n by (simp add: f)
  have tt: "train_target ag P R T = scatter_loop an l dml dmu [0..<B] th0"
    using sh an(1) dz
    by (simp add: train_target_def Let_def psel_def l_def dml_def dmu_def th0_def f B_def Ad_def N_def)
  have sh0: "histo_shape B Ad N th0" unfolding th0_def by (rule histo_shape_zeros)
  have psel: "psel ! i = P ! i ! (an ! i)" "length (psel ! i) = N" if "i < B" for i
    using that rowsP an(3) by (simp_all add: psel_def)
  have pre: "\<forall>i\<in>set [0..<B]. i < B \<and> an ! i < Ad \<and> length (l ! i) = N \<and> length (dml ! i) = N \<and>
           length (dmu ! i) = N \<and> (\<forall>x\<in>set (l ! i). 0 \<le> x \<and> x < int N)"
  proof
    fix i assume "i \<in> set [0..<B]"
    then have i: "i < B" by simp
    have li: "l ! i = l_row ag (R ! i) (T ! i)" using i by (simp add: l_def)
    have lenl: "length (l ! i) = N" by (simp add: li l_row_def length_b_row N_def)
    have lend: "length (dml ! i) = N" "length (dmu ! i) = N"
      using i psel(2)[OF i] by (simp_all add: dml_def dmu_def d_m_l_row_def d_m_u_row_def length_b_row N_def)
    have rg: "\<forall>x\<in>set (l ! i). 0 \<le> x \<and> x < int N"
    proof
      fix x assume "x \<in> set (l ! i)"
      then obtain j where j: "j < N" "x = l_row ag (R ! i) (T ! i) ! j"
        using lenl li by (auto simp: in_set_conv_nth)
      then have "j < length (atoms ag)" by (simp add: N_def)
      from index_range[OF ini n v this, of "R ! i" "T ! i"] j Npos
      show "0 \<le> x \<and> x < int N" by simp
    qed
    show "i < B \<and> an ! i < Ad \<and> length (l ! i) = N \<and> length (dml ! i) = N \<and>
           length (dmu ! i) = N \<and> (\<forall>x\<in>set (l ! i). 0 \<le> x \<and> x < int N)"
      using i an(3) lenl lend rg by simp
  qed
  from scatter_loop_ok[OF sh0 pre] obtain h where h:
    "scatter_loop an l dml dmu [0..<B] th0 = Inr h" "histo_shape B Ad N h"
    "\<forall>k\<in>set [0..<B]. \<forall>a<Ad. a \<noteq> an ! k \<longrightarrow> h ! k ! a = th0 ! k ! a"
    "\<forall>k\<in>set [0..<B]. sum_list (h ! k ! (an ! k)) = sum_list (dml ! k) + sum_list (dmu ! k)"
    by blast
  have "an ! b < Ad \<and> (\<forall>a<Ad. a \<noteq> an ! b \<longrightarrow> h ! b ! a = replicate N 0) \<and>
        sum_list (h ! b ! (an ! b)) = sum_list (P ! b ! (an ! b))" if b: "b < B" for b
  proof -
    have z: "\<forall>a<Ad. th0 ! b ! a = replicate N 0" using b by (simp add: th0_def)
    have o: "\<forall>a<Ad. a \<noteq> an ! b \<longrightarrow> h ! b ! a = replicate N 0" using h(3) b z by simp
    have "sum_list (dml ! b) + sum_list (dmu ! b) =
          sum_list (map2 d_m_l (b_row ag (R ! b) (T ! b)) (psel ! b)) +
          sum_list (map2 d_m_u (b_row ag (R ! b) (T ! b)) (psel ! b))"
      using b by (simp add: dml_def dmu_def d_m_l_row_def d_m_u_row_def)
    also have "\<dots> = sum_list (psel ! b)"
      by (rule d_m_rows_sum) (simp add: length_b_row psel(2)[OF b] N_def[symmetric])
    finally have "sum_list (h ! b ! (an ! b)) = sum_list (P ! b ! (an ! b))"
      using h(4) b psel(1)[OF b] by simp
    then show ?thesis using an(3) b o by simp
  qed
  then have per: "\<forall>b<B. an ! b < Ad \<and> (\<forall>a<Ad. a \<noteq> an ! b \<longrightarrow> h ! b ! a = replicate N 0) \<and>
        sum_list (h ! b ! (an ! b)) = sum_list (P ! b ! (an ! b))" by blast
  have tth: "train_target ag P R T = Inr h" using tt h(1) by simp
  have "select_action_next ag P = Inr an \<and> length an = B \<and> train_target ag P R T = Inr h \<and>
        histo_shape B Ad N h \<and>
        (\<forall>b<B. an ! b < Ad \<and> (\<forall>a<Ad. a \<noteq> an ! b \<longrightarrow> h ! b ! a = replicate N 0) \<and>
        sum_list (h ! b ! (an ! b)) = sum_list (P ! b ! (an ! b)))"
    using an(1,2) tth h(2) per by simp
  then show ?thesis unfolding B_def Ad_def Nn by (intro exI)
qed

subsection \<open>The target histogram\<close>

text \<open>
  Claim C2. For a valid configuration and arrays of the expected shapes, the projection
  returns a histogram, and for every batch item whose selected probability vector is
  non-negative and sums to one the row of the selected action sums to one. (Both
  contributions of an atom land in the same row, and their weights sum to one, so the mass
  of the row is that of the vector wherever in the row it lands.)
\<close>

theorem selected_row_sums_to_one:
  assumes "init c = Inr ag" and "2 \<le> Categorical_n_atoms c"
    and "Categorical_Vmin c < Categorical_Vmax c"
    and "shapes_ok ag prob_next rewards terminals" and "0 < action_dim c"
    and "select_action_next ag prob_next = Inr action_next"
    and "b < batch_size c"
    and "\<forall>x\<in>set (prob_next ! b ! (action_next ! b)). 0 \<le> x"
    and "sum_list (prob_next ! b ! (action_next ! b)) = 1"
  shows "\<exists>h. train_target ag prob_next rewards terminals = Inr h \<and>
             sum_list (h ! b ! (action_next ! b)) = 1"
proof -
  from train_target_ok[OF assms(1-5)] obtain an h where
    r: "select_action_next ag prob_next = Inr an"
       "train_target ag prob_next rewards terminals = Inr h"
       "\<forall>b<batch_size c. sum_list (h ! b ! (an ! b)) = sum_list (prob_next ! b ! (an ! b))"
    by blast
  have "an = action_next" using r(1) assms(6) by simp
  then show ?thesis using r(2,3) assms(7,9) by auto
qed

theorem selected_row_sums_to_one_witness:
  "train_target agent3 [[[1, 0, 0], [0, 1/2, 1/2]]] [1/2] [False] = Inr [[[0, 0, 0], [0, 1/2, 1/2]]] \<and>
   select_action_next agent3 [[[1, 0, 0], [0, 1/2, 1/2]]] = Inr [1] \<and>
   (\<exists>h. train_target agent3 [[[1, 0, 0], [0, 1/2, 1/2]]] [1/2] [False] = Inr h \<and>
        sum_list (h ! 0 ! ([1] ! 0)) = 1)"
proof -
  have i: "init cfg3 = Inr agent3" by code_simp
  have t: "train_target agent3 [[[1, 0, 0], [0, 1/2, 1/2]]] [1/2] [False]
             = Inr [[[0, 0, 0], [0, 1/2, 1/2]]]" by code_simp
  have s: "select_action_next agent3 [[[1, 0, 0], [0, 1/2, 1/2]]] = Inr [1]" by code_simp
  have sh: "shapes_ok agent3 [[[1, 0, 0], [0, 1/2, 1/2]]] [1/2] [False]" by code_simp
  have h2: "2 \<le> Categorical_n_atoms cfg3" "Categorical_Vmin cfg3 < Categorical_Vmax cfg3"
    "0 < action_dim cfg3" "0 < batch_size cfg3" by (simp_all add: cfg3_def)
  have nn: "\<forall>x\<in>set ([[[1, 0, 0], [0, 1/2, 1/2]]] ! 0 ! ([1] ! 0)). (0::real) \<le> x" by simp
  have one: "sum_list ([[[1, 0, 0], [0, 1/2, 1/2]]] ! 0 ! ([1] ! 0)) = (1::real)" by simp
  from selected_row_sums_to_one[OF i h2(1,2) sh h2(3) s h2(4) nn one]
  show ?thesis using t s by simp
qed

text \<open>
  Claim C5. In the histogram the projection returns, every entry of every row of an action
  other than the selected one is zero.
\<close>

theorem non_selected_rows_zero:
  assumes "init c = Inr ag" and "2 \<le> Categorical_n_atoms c"
    and "Categorical_Vmin c < Categorical_Vmax c"
    and "shapes_ok ag prob_next rewards terminals" and "0 < action_dim c"
    and "select_action_next ag prob_next = Inr action_next"
    and "b < batch_size c" and "a < action_dim c" and "a \<noteq> action_next ! b"
    and "j < nat (Categorical_n_atoms c)"
  shows "\<exists>h. train_target ag prob_next rewards terminals = Inr h \<and>
             length h = batch_size c \<and> length (h ! b) = action_dim c \<and>
             length (h ! b ! a) = nat (Categorical_n_atoms c) \<and> h ! b ! a ! j = 0"
proof -
  from train_target_ok[OF assms(1-5)] obtain an h where
    r: "select_action_next ag prob_next = Inr an"
       "train_target ag prob_next rewards terminals = Inr h"
       "histo_shape (batch_size c) (action_dim c) (nat (Categorical_n_atoms c)) h"
       "\<forall>b<batch_size c. \<forall>a<action_dim c. a \<noteq> an ! b \<longrightarrow>
           h ! b ! a = replicate (nat (Categorical_n_atoms c)) 0"
    by blast
  have an: "an = action_next" using r(1) assms(6) by simp
  have row: "h ! b ! a = replicate (nat (Categorical_n_atoms c)) 0"
    using r(4) assms(7,8,9) an by simp
  have "length h = batch_size c" using r(3) by (simp add: histo_shape_def)
  moreover have "length (h ! b) = action_dim c"
    using histo_shape_nth[OF r(3) assms(7)] by simp
  ultimately show ?thesis using r(2) row assms(10) by simp
qed

theorem non_selected_rows_zero_witness:
  "train_target agent3 [[[1, 0, 0], [0, 1/2, 1/2]]] [1/2] [False] = Inr [[[0, 0, 0], [0, 1/2, 1/2]]] \<and>
   select_action_next agent3 [[[1, 0, 0], [0, 1/2, 1/2]]] = Inr [1] \<and>
   (\<exists>h. train_target agent3 [[[1, 0, 0], [0, 1/2, 1/2]]] [1/2] [False] = Inr h \<and>
        h ! 0 ! 0 ! 2 = 0)"
proof -
  have i: "init cfg3 = Inr agent3" by code_simp
  have t: "train_target agent3 [[[1, 0, 0], [0, 1/2, 1/2]]] [1/2] [False]
             = Inr [[[0, 0, 0], [0, 1/2, 1/2]]]" by code_simp
  have s: "select_action_next agent3 [[[1, 0, 0], [0, 1/2, 1/2]]] = Inr [1]" by code_simp
  have sh: "shapes_ok agent3 [[[1, 0, 0], [0, 1/2, 1/2]]] [1/2] [False]" by code_simp
  have h2: "2 \<le> Categorical_n_atoms cfg3" "Categorical_Vmin cfg3 < Categorical_Vmax cfg3"
    "0 < action_dim cfg3" "0 < batch_size cfg3" "2 < nat (Categorical_n_atoms cfg3)"
    by (simp_all add: cfg3_def)
  have ne: "(0::nat) \<noteq> [1] ! 0" by simp
  from non_selected_rows_zero[OF i h2(1,2) sh h2(3) s h2(4) h2(3) ne h2(5)]
  show ?thesis using t s by simp
qed

text \<open>
  Claim C1 asks for the lower contribution at index \<open>l\<close> and the upper contribution at
  index \<open>u\<close>. Line 108 adds \<^verbatim>\<open>d_m_u[i]\<close> at \<^verbatim>\<open>l[i]\<close>. With atoms 0, 1, 2, reward
  1/2 and all mass on atom 0, the shifted atom 1/2 lies between the grid points 0 and 1
  and both halves of its mass are due; the code returns the whole mass at index 0 and
  nothing at index 1, where adding \<^verbatim>\<open>d_m_u\<close> at \<open>u\<close> gives one half at each.
\<close>

theorem upper_mass_added_at_lower_index:
  "l_row agent3 (1/2) False = [0, 1, 2] \<and> u_row agent3 (1/2) False = [1, 2, 2] \<and>
   select_action_next agent3 [[[1, 0, 0], [1, 0, 0]]] = Inr [0] \<and>
   d_m_l_row agent3 (1/2) False [1, 0, 0] = [1/2, 0, 0] \<and>
   d_m_u_row agent3 (1/2) False [1, 0, 0] = [1/2, 0, 0] \<and>
   train_target agent3 [[[1, 0, 0], [1, 0, 0]]] [1/2] [False] = Inr [[[1, 0, 0], [0, 0, 0]]] \<and>
   add_at [0, 0, 0] (l_row agent3 (1/2) False) (d_m_l_row agent3 (1/2) False [1, 0, 0])
     = Inr [1/2, 0, 0] \<and>
   add_at [1/2, 0, 0] (u_row agent3 (1/2) False) (d_m_u_row agent3 (1/2) False [1, 0, 0])
     = Inr [1/2, 1/2, 0]"
  by code_simp

section \<open>Binary64 arithmetic\<close>

subsection \<open>Error and monotonicity of the rounding\<close>

lemma round_even_err: "\<bar>real_of_int (round_even y) - y\<bar> \<le> 1/2"
proof -
  have "real_of_int \<lfloor>y\<rfloor> \<le> y" "y < real_of_int \<lfloor>y\<rfloor> + 1" by linarith+
  then show ?thesis by (auto simp: round_even_def Let_def)
qed

lemma bitlen_Suc:
  assumes "0 < k"
  shows "bitlen k = int (nat (bitlen k - 1)) + 1"
proof -
  have "1 \<le> bitlen k" using assms bitlen_eq_zero_iff[of k] bitlen_nonneg[of k] by linarith
  then show ?thesis by simp
qed

lemma expo64_bounds:
  assumes "0 < a"
  shows "2 ^ 52 \<le> a * 2 powi (- expo64 a) \<and> a * 2 powi (- expo64 a) < 2 ^ 53"
proof (cases "1 \<le> a")
  case True
  define k where "k = \<lfloor>a\<rfloor>"
  define B where "B = nat (bitlen k - 1)"
  have k: "0 < k" using True by (simp add: k_def)
  have bl: "bitlen k = int B + 1" unfolding B_def by (rule bitlen_Suc[OF k])
  have nb: "nat (bitlen k) = B + 1" using bl by linarith
  have kb: "2 ^ B \<le> k" "k < 2 ^ (B + 1)"
    using bitlen_bounds[OF k] unfolding nb B_def[symmetric] by simp_all
  have "real_of_int k \<le> a" "a < real_of_int k + 1" unfolding k_def by linarith+
  moreover have "(2::real) ^ B \<le> real_of_int k"
    using kb(1) by (metis of_int_le_iff of_int_numeral of_int_power)
  moreover have "real_of_int k + 1 \<le> 2 ^ (B + 1)"
  proof -
    have "k + 1 \<le> 2 ^ (B + 1)" using kb(2) by simp
    then have "real_of_int (k + 1) \<le> real_of_int (2 ^ (B + 1))" by (simp only: of_int_le_iff)
    then show ?thesis by simp
  qed
  ultimately have a: "2 ^ B \<le> a" "a < 2 ^ (B + 1)" by linarith+
  have e: "expo64 a = int B - 52" using True bl by (simp add: expo64_def k_def)
  have p: "(2::real) powi (- (int B - 52)) = 2 ^ 52 / 2 ^ B"
    by (simp add: power_int_diff power_int_minus field_simps)
  define P where "P = (2::real) ^ 52"
  define q where "q = a / 2 ^ B"
  have P: "0 < P" "(2::real) ^ 53 = 2 * P" by (simp_all add: P_def)
  have q: "1 \<le> q" "q < 2" using a by (simp_all add: q_def field_simps)
  have eq: "a * 2 powi (- expo64 a) = q * P" unfolding e p by (simp add: q_def P_def)
  have lo: "P \<le> q * P" using q(1) P(1) by simp
  have hi: "q * P < 2 * P" using q(2) P(1) by simp
  show ?thesis unfolding eq P(2) P_def[symmetric] using lo hi by (intro conjI)
next
  case False
  define m where "m = \<lceil>1 / a\<rceil> - 1"
  define C where "C = nat (bitlen m - 1)"
  have ia: "1 < 1 / a" using assms False by simp
  then have "2 \<le> \<lceil>1 / a\<rceil>" by linarith
  then have m: "0 < m" by (simp add: m_def)
  have bl: "bitlen m = int C + 1" unfolding C_def by (rule bitlen_Suc[OF m])
  have nb: "nat (bitlen m) = C + 1" using bl by linarith
  have mb: "2 ^ C \<le> m" "m < 2 ^ (C + 1)"
    using bitlen_bounds[OF m] unfolding nb C_def[symmetric] by simp_all
  have c1: "real_of_int m < 1 / a" "1 / a \<le> real_of_int m + 1" unfolding m_def by linarith+
  have "(2::real) ^ C \<le> real_of_int m"
    using mb(1) by (metis of_int_le_iff of_int_numeral of_int_power)
  moreover have "real_of_int m + 1 \<le> 2 ^ (C + 1)"
  proof -
    have "m + 1 \<le> 2 ^ (C + 1)" using mb(2) by simp
    then have "real_of_int (m + 1) \<le> real_of_int (2 ^ (C + 1))" by (simp only: of_int_le_iff)
    then show ?thesis by simp
  qed
  ultimately have ia2: "2 ^ C < 1 / a" "1 / a \<le> 2 ^ (C + 1)" using c1 by linarith+
  have a: "a * 2 ^ C < 1" "1 \<le> a * 2 ^ (C + 1)"
    using ia2 assms by (simp_all add: field_simps)
  have e: "expo64 a = - (int C + 1) - 52" using False bl by (simp add: expo64_def m_def)
  have p: "(2::real) powi (- (- (int C + 1) - 52)) = 2 ^ (C + 1) * 2 ^ 52"
  proof -
    have "- (- (int C + 1) - 52) = int (C + 1 + 52)" by simp
    then have "(2::real) powi (- (- (int C + 1) - 52)) = 2 ^ (C + 1 + 52)"
      by (simp only: power_int_of_nat)
    then show ?thesis by (simp add: power_add)
  qed
  define P where "P = (2::real) ^ 52"
  define q where "q = a * 2 ^ (C + 1)"
  have P: "0 < P" "(2::real) ^ 53 = 2 * P" by (simp_all add: P_def)
  have q: "1 \<le> q" "q < 2" using a by (simp_all add: q_def)
  have eq: "a * 2 powi (- expo64 a) = q * P" unfolding e p by (simp add: q_def P_def)
  have lo: "P \<le> q * P" using q(1) P(1) by simp
  have hi: "q * P < 2 * P" using q(2) P(1) by simp
  show ?thesis unfolding eq P(2) P_def[symmetric] using lo hi by (intro conjI)
qed

lemma fl64_err: "\<bar>fl64 x - x\<bar> \<le> \<bar>x\<bar> / 2 ^ 53"
proof (cases "x = 0")
  case True
  then show ?thesis by (simp add: fl64_def)
next
  case False
  define a where "a = \<bar>x\<bar>"
  define e where "e = expo64 a"
  define s where "s = a * 2 powi (- e)"
  define m where "m = real_of_int (round_even s)"
  have a: "0 < a" using False by (simp add: a_def)
  have pe: "0 < (2::real) powi e" by simp
  have sb: "2 ^ 52 \<le> s" using expo64_bounds[OF a] by (simp add: s_def e_def)
  have as: "a = s * 2 powi e" by (simp add: s_def power_int_minus field_simps)
  have f: "fl64 x = sgn x * m * 2 powi e"
    using False by (simp add: fl64_def Let_def a_def e_def s_def m_def)
  have x: "x = sgn x * a" by (simp add: a_def sgn_mult_abs)
  have "fl64 x - x = sgn x * (m * 2 powi e - a)" unfolding f by (subst (2) x) (simp add: algebra_simps)
  then have "\<bar>fl64 x - x\<bar> = \<bar>m * 2 powi e - a\<bar>" using False by (simp add: abs_mult abs_sgn_eq)
  also have "\<dots> = \<bar>m - s\<bar> * 2 powi e" unfolding as by (simp add: left_diff_distrib[symmetric] abs_mult)
  also have "\<dots> \<le> 1 / 2 * 2 powi e"
    using round_even_err[of s] pe by (intro mult_right_mono) (simp_all add: m_def)
  also have "\<dots> \<le> 1 / 2 * (a / 2 ^ 52)"
  proof -
    have "2 ^ 52 * 2 powi e \<le> s * 2 powi e" using sb pe by (intro mult_right_mono) simp_all
    then have "2 powi e \<le> a / 2 ^ 52" using as by (simp add: field_simps)
    then show ?thesis by simp
  qed
  also have "\<dots> = a / 2 ^ 53" by simp
  finally show ?thesis by (simp add: a_def)
qed

lemma fl64_zero: "fl64 0 = 0"
  by (simp add: fl64_def)

lemma fl64_nonneg_bounds:
  assumes "0 \<le> x"
  shows "x * (1 - 1 / 2 ^ 53) \<le> fl64 x \<and> fl64 x \<le> x * (1 + 1 / 2 ^ 53)"
proof -
  have "\<bar>fl64 x - x\<bar> \<le> x / 2 ^ 53" using fl64_err[of x] assms by simp
  then have "x - x / 2 ^ 53 \<le> fl64 x" "fl64 x \<le> x + x / 2 ^ 53" by linarith+
  then show ?thesis by (simp add: algebra_simps)
qed

lemma fl64_pos: "0 < x \<Longrightarrow> 0 < fl64 x"
proof -
  assume x: "0 < x"
  have "0 < x * (1 - 1 / 2 ^ 53)" using x by simp
  then show ?thesis using fl64_nonneg_bounds[of x] x by linarith
qed

lemma fl64_nonneg: "0 \<le> x \<Longrightarrow> 0 \<le> fl64 x"
  using fl64_pos[of x] fl64_zero by (cases "x = 0") auto




lemma round_even_of_int: "round_even (real_of_int k) = k"
  by (simp add: round_even_def)

lemma round_even_cases: "round_even y = \<lfloor>y\<rfloor> \<or> round_even y = \<lfloor>y\<rfloor> + 1"
  by (simp add: round_even_def Let_def)

lemma round_even_ge_floor: "\<lfloor>y\<rfloor> \<le> round_even y"
  using round_even_cases[of y] by linarith

lemma round_even_mono:
  assumes "x \<le> y"
  shows "round_even x \<le> round_even y"
proof (cases "\<lfloor>x\<rfloor> = \<lfloor>y\<rfloor>")
  case True
  have "x - real_of_int \<lfloor>y\<rfloor> \<le> y - real_of_int \<lfloor>y\<rfloor>" using assms by simp
  then show ?thesis using True by (auto simp: round_even_def Let_def)
next
  case False
  then have "\<lfloor>x\<rfloor> + 1 \<le> \<lfloor>y\<rfloor>" using floor_mono[OF assms] by linarith
  then show ?thesis using round_even_cases[of x] round_even_ge_floor[of y] by linarith
qed

lemma expo64_sandwich:
  assumes "0 < a"
  shows "2 ^ 52 * 2 powi expo64 a \<le> a \<and> a < 2 ^ 53 * 2 powi expo64 a"
proof -
  define e where "e = expo64 a"
  define s where "s = a * 2 powi (- e)"
  have s: "2 ^ 52 \<le> s" "s < 2 ^ 53" using expo64_bounds[OF assms] by (simp_all add: s_def e_def)
  have pe: "0 < (2::real) powi e" by simp
  have a: "a = s * 2 powi e" by (simp add: s_def power_int_minus field_simps)
  have "2 ^ 52 * 2 powi e \<le> s * 2 powi e" using s(1) pe by (intro mult_right_mono) simp_all
  moreover have "s * 2 powi e < 2 ^ 53 * 2 powi e" using s(2) pe by (intro mult_strict_right_mono) simp_all
  ultimately show ?thesis unfolding e_def[symmetric] using a by simp
qed

lemma expo64_mono:
  assumes "0 < a" "a \<le> b"
  shows "expo64 a \<le> expo64 b"
proof (rule ccontr)
  assume "\<not> expo64 a \<le> expo64 b"
  then have lt: "expo64 b + 1 \<le> expo64 a" by simp
  define P where "P = (2::real) ^ 52"
  have P: "0 < P" "(2::real) ^ 53 = P * 2" by (simp_all add: P_def)
  have b: "0 < b" using assms by simp
  have "b < P * 2 * 2 powi expo64 b" using expo64_sandwich[OF b] P(2) by simp
  also have "\<dots> = P * 2 powi (expo64 b + 1)" by (simp add: power_int_add)
  also have "\<dots> \<le> P * 2 powi expo64 a"
    using lt P(1) by (intro mult_left_mono power_int_increasing) simp_all
  also have "\<dots> \<le> a" using expo64_sandwich[OF assms(1)] by (simp add: P_def)
  finally show False using assms(2) by simp
qed

lemma fl64_pos_eq:
  assumes "0 < a"
  shows "fl64 a = real_of_int (round_even (a * 2 powi (- expo64 a))) * 2 powi expo64 a"
  using assms by (simp add: fl64_def Let_def)

lemma fl64_mono_pos:
  assumes "0 < a" "a \<le> b"
  shows "fl64 a \<le> fl64 b"
proof -
  have b: "0 < b" using assms by simp
  define ea where "ea = expo64 a"
  define eb where "eb = expo64 b"
  define ma where "ma = round_even (a * 2 powi (- ea))"
  define mb where "mb = round_even (b * 2 powi (- eb))"
  define P where "P = (2::real) ^ 52"
  have P: "0 < P" "(2::real) ^ 53 = P * 2" by (simp_all add: P_def)
  have fa: "fl64 a = real_of_int ma * 2 powi ea" unfolding ma_def ea_def by (rule fl64_pos_eq[OF assms(1)])
  have fb: "fl64 b = real_of_int mb * 2 powi eb" unfolding mb_def eb_def by (rule fl64_pos_eq[OF b])
  have ma_hi: "real_of_int ma \<le> P * 2"
  proof -
    have "a * 2 powi (- ea) \<le> real_of_int (2 ^ 53)"
      using expo64_bounds[OF assms(1)] by (simp add: ea_def)
    from round_even_mono[OF this] have "ma \<le> 2 ^ 53" by (simp only: ma_def round_even_of_int)
    then have "real_of_int ma \<le> real_of_int (2 ^ 53)" by (simp only: of_int_le_iff)
    then show ?thesis using P(2) by simp
  qed
  have mb_lo: "P \<le> real_of_int mb"
  proof -
    have "real_of_int (2 ^ 52) \<le> b * 2 powi (- eb)"
      using expo64_bounds[OF b] by (simp add: eb_def)
    from round_even_mono[OF this] have "2 ^ 52 \<le> mb" by (simp only: mb_def round_even_of_int)
    then have "real_of_int (2 ^ 52) \<le> real_of_int mb" by (simp only: of_int_le_iff)
    then show ?thesis by (simp add: P_def)
  qed
  have le: "ea \<le> eb" unfolding ea_def eb_def by (rule expo64_mono[OF assms])
  show ?thesis
  proof (cases "ea = eb")
    case True
    have "a * 2 powi (- eb) \<le> b * 2 powi (- eb)" using assms(2) by (intro mult_right_mono) simp_all
    from round_even_mono[OF this] have "ma \<le> mb" by (simp add: ma_def mb_def True)
    then have "real_of_int ma \<le> real_of_int mb" by (simp only: of_int_le_iff)
    then have "real_of_int ma * 2 powi eb \<le> real_of_int mb * 2 powi eb"
      by (intro mult_right_mono) simp_all
    then show ?thesis unfolding fa fb True .
  next
    case False
    then have lt: "ea + 1 \<le> eb" using le by simp
    have "fl64 a \<le> P * 2 * 2 powi ea" unfolding fa using ma_hi by (intro mult_right_mono) simp_all
    also have "\<dots> = P * 2 powi (ea + 1)" by (simp add: power_int_add)
    also have "\<dots> \<le> P * 2 powi eb"
      using lt P(1) by (intro mult_left_mono power_int_increasing) simp_all
    also have "\<dots> \<le> fl64 b" unfolding fb using mb_lo by (intro mult_right_mono) simp_all
    finally show ?thesis .
  qed
qed

lemma fl64_minus: "fl64 (- x) = - fl64 x"
  by (simp add: fl64_def Let_def)

lemma fl64_mono:
  assumes "x \<le> y"
  shows "fl64 x \<le> fl64 y"
proof -
  consider "0 < x" | "x \<le> 0" "0 \<le> y" | "y < 0" by linarith
  then show ?thesis
  proof cases
    case 1
    then show ?thesis using assms by (rule fl64_mono_pos)
  next
    case 2
    have "fl64 x \<le> 0" using fl64_nonneg[of "- x"] 2(1) by (simp add: fl64_minus)
    moreover have "0 \<le> fl64 y" using 2(2) by (rule fl64_nonneg)
    ultimately show ?thesis by simp
  next
    case 3
    have "fl64 (- y) \<le> fl64 (- x)" using 3 assms by (intro fl64_mono_pos) simp_all
    then show ?thesis by (simp add: fl64_minus)
  qed
qed

subsection \<open>Evaluation on concrete numbers\<close>

lemma two_powi: "(2::real) powi e = (if 0 \<le> e then 2 ^ nat e else 1 / 2 ^ nat (- e))"
  by (simp add: power_int_def field_simps)

lemmas fl64_eval = fl64_def expo64_def round_even_def Let_def compute_bitlen two_powi


lemma init64_cfg4: "init64 cfg4 = Inr agent4"
  by (simp add: init64_def linspace64_def cfg4_def agent4_def upt_rec fl64_eval)

lemma init64_cfg_ulp: "init64 cfg_ulp = Inr agent_ulp"
  by (simp add: init64_def linspace64_def cfg_ulp_def agent_ulp_def upt_rec fl64_eval)

subsection \<open>The support in binary64\<close>




lemma linspace64_many:
  assumes n: "2 \<le> n" and ab: "a < b" and ra: "fl64 a = a" and rb: "fl64 b = b"
  shows "\<exists>zs. linspace64 a b n = Inr zs \<and> length zs = nat n \<and> zs ! (nat n - 1) = b \<and>
           (\<forall>k<nat n - 1. zs ! k =
              fl64 (fl64 (fl64 (real k) * fl64 (fl64 (b - a) / fl64 (real_of_int (n - 1)))) + a))"
proof -
  let ?step = "fl64 (fl64 (b - a) / fl64 (real_of_int (n - 1)))"
  let ?zs = "(map (\<lambda>v. fl64 (v + a)) (map (\<lambda>k. fl64 (k * ?step))
               (map (\<lambda>k. fl64 (real k)) [0..<nat n])))[nat n - 1 := b]"
  have dv: "0 < fl64 (real_of_int (n - 1))" using n by (intro fl64_pos) simp
  have delta: "0 < fl64 (b - a)" using ab by (intro fl64_pos) simp
  have step: "0 < ?step" using dv delta by (intro fl64_pos) simp
  then have stepnz: "?step \<noteq> 0" by simp
  have eq: "linspace64 a b n = Inr ?zs"
    using n stepnz by (simp add: linspace64_def Let_def ra rb)
  have len: "length ?zs = nat n" by simp
  have last: "?zs ! (nat n - 1) = b" using n by simp
  have nth: "?zs ! k = fl64 (fl64 (fl64 (real k) * ?step) + a)" if "k < nat n - 1" for k
    using that by simp
  show ?thesis using eq len last nth by blast
qed

lemma rounding_constant4:
  fixes u :: real
  assumes "0 \<le> u" "17 * u \<le> 1"
  shows "(1 + u) ^ 4 \<le> (1 + 6 * u) * (1 - u)"
proof -
  have u1: "u \<le> 1" using assms by simp
  have u2: "u ^ 2 \<le> u" using assms(1) u1 by (simp add: power2_eq_square mult_left_le)
  have u3: "u ^ 3 \<le> u"
  proof -
    have "u ^ 3 = u * u ^ 2" by (simp add: power3_eq_cube power2_eq_square)
    also have "\<dots> \<le> u * u" using u2 assms(1) by (intro mult_left_mono) simp_all
    also have "\<dots> \<le> u" using u2 by (simp add: power2_eq_square)
    finally show ?thesis .
  qed
  have "(1 + 6 * u) * (1 - u) - (1 + u) ^ 4 = u * (1 - (12 * u + 4 * u ^ 2 + u ^ 3))"
    by (simp add: power4_eq_xxxx power2_eq_square power3_eq_cube algebra_simps)
  moreover have "12 * u + 4 * u ^ 2 + u ^ 3 \<le> 1" using u2 u3 assms by linarith
  then have "0 \<le> u * (1 - (12 * u + 4 * u ^ 2 + u ^ 3))" using assms(1) by simp
  ultimately show ?thesis by linarith
qed

lemma last_atom_bound:
  fixes u :: real
  assumes u: "0 < u" "u < 1"
    and K: "(1 + u) ^ 4 \<le> (1 + 6 * u) * (1 - u)"
    and D: "0 < D" and m: "1 \<le> m" "6 * u * m < 1"
    and kf: "kf \<le> (m - 1) * (1 + u)"
    and delta: "delta \<le> D * (1 + u)"
    and dv: "m * (1 - u) \<le> dv"
    and step: "0 \<le> step" "step \<le> delta / dv * (1 + u)"
    and p: "p \<le> kf * step * (1 + u)"
  shows "p \<le> D"
proof -
  define L where "L = 1 - u"
  define U where "U = 1 + u"
  have L: "0 < L" and U: "0 < U" using u by (simp_all add: L_def U_def)
  have mpos: "0 < m" using m by simp
  have q: "delta / dv \<le> D * U / (m * L)"
  proof (rule frac_le)
    show "0 \<le> D * U" using D U by simp
    show "delta \<le> D * U" using delta by (simp add: U_def)
    show "0 < m * L" using mpos L by simp
    show "m * L \<le> dv" using dv by (simp add: L_def)
  qed
  have s1: "step \<le> D * U / (m * L) * U"
  proof -
    have "delta / dv * U \<le> D * U / (m * L) * U" using q U by (intro mult_right_mono) simp_all
    then show ?thesis using step(2) by (simp add: U_def)
  qed
  have s2: "kf * step \<le> (m - 1) * U * (D * U / (m * L) * U)"
  proof (rule mult_mono)
    show "kf \<le> (m - 1) * U" using kf by (simp add: U_def)
    show "step \<le> D * U / (m * L) * U" by (rule s1)
    show "0 \<le> (m - 1) * U" using m U by simp
    show "0 \<le> step" by (rule step)
  qed
  have "kf * step * U \<le> (m - 1) * U * (D * U / (m * L) * U) * U"
    using s2 U by (intro mult_right_mono) simp_all
  then have "p \<le> (m - 1) * U * (D * U / (m * L) * U) * U" using p by (simp add: U_def)
  also have "\<dots> = (m - 1) * D / (m * L) * U ^ 4"
    by (simp add: power4_eq_xxxx)
  also have "\<dots> \<le> (m - 1) * D / (m * L) * ((1 + 6 * u) * L)"
  proof (rule mult_left_mono)
    show "U ^ 4 \<le> (1 + 6 * u) * L" using K by (simp add: U_def L_def)
    show "0 \<le> (m - 1) * D / (m * L)" using m D L mpos by simp
  qed
  also have "\<dots> = (m - 1) * (1 + 6 * u) * D / m"
    using L mpos by (simp add: field_simps)
  also have "\<dots> \<le> m * D / m"
  proof (rule divide_right_mono)
    have "(m - 1) * (1 + 6 * u) \<le> m"
    proof -
      have "6 * u * (m - 1) \<le> 6 * u * m" using u by simp
      then have "6 * u * (m - 1) \<le> 1" using m(2) by linarith
      then show ?thesis by (simp add: algebra_simps)
    qed
    then show "(m - 1) * (1 + 6 * u) * D \<le> m * D" using D by (intro mult_right_mono) simp_all
    show "0 \<le> m" using mpos by simp
  qed
  also have "\<dots> = D" using mpos by simp
  finally show ?thesis .
qed

lemma fl64_last_atom:
  assumes D: "0 < D" and m: "1 \<le> m" "m \<le> 2 ^ 50"
  shows "fl64 (fl64 (m - 1) * fl64 (fl64 D / fl64 m)) \<le> D"
proof -
  define u where "u = (1::real) / 2 ^ 53"
  have u: "0 < u" "u < 1" by (simp_all add: u_def)
  have K: "(1 + u) ^ 4 \<le> (1 + 6 * u) * (1 - u)"
    by (rule rounding_constant4) (simp_all add: u_def)
  have m6: "6 * u * m < 1"
  proof -
    have "6 * u * m \<le> 6 * u * 2 ^ 50" using m(2) u by simp
    also have "\<dots> < 1" by (simp add: u_def)
    finally show ?thesis .
  qed
  have mpos: "0 < m" and m1: "0 \<le> m - 1" using m by simp_all
  define kf where "kf = fl64 (m - 1)"
  define delta where "delta = fl64 D"
  define dv where "dv = fl64 m"
  define step where "step = fl64 (delta / dv)"
  have kf: "0 \<le> kf" "kf \<le> (m - 1) * (1 + u)"
    unfolding kf_def u_def using fl64_nonneg_bounds[OF m1] fl64_nonneg[OF m1] by simp_all
  have delta: "0 < delta" "delta \<le> D * (1 + u)"
    unfolding delta_def u_def using fl64_nonneg_bounds[of D] fl64_pos[OF D] D by simp_all
  have dv: "0 < dv" "m * (1 - u) \<le> dv"
    unfolding dv_def u_def using fl64_nonneg_bounds[of m] fl64_pos[OF mpos] mpos by simp_all
  have qpos: "0 \<le> delta / dv" using delta(1) dv(1) by simp
  have step: "0 \<le> step" "step \<le> delta / dv * (1 + u)"
    unfolding step_def u_def using fl64_nonneg_bounds[OF qpos] fl64_nonneg[OF qpos] by simp_all
  have prod: "0 \<le> kf * step" using kf(1) step(1) by simp
  have p: "fl64 (kf * step) \<le> kf * step * (1 + u)"
    unfolding u_def using fl64_nonneg_bounds[OF prod] by simp
  have "fl64 (kf * step) \<le> D"
    by (rule last_atom_bound[OF u K D m(1) m6 kf(2) delta(2) dv(2) step p])
  then show ?thesis unfolding kf_def step_def delta_def dv_def .
qed

text \<open>
  Claim C4, as stated, promises strictly increasing atoms with the spacing
  \<^verbatim>\<open>delta_z\<close> for every valid configuration. With \<^verbatim>\<open>Vmin = 1\<close>, \<^verbatim>\<open>Vmax\<close> the
  next float above 1 and three atoms, the middle atom rounds to 1 and equals the first.
  With four atoms on \<^verbatim>\<open>[0, 1]\<close> the last two atoms differ by 0.33333333333333337 while
  \<^verbatim>\<open>delta_z\<close> is 0.3333333333333333.
\<close>

theorem support_not_strictly_increasing:
  "2 \<le> Categorical_n_atoms cfg_ulp \<and> Categorical_Vmin cfg_ulp < Categorical_Vmax cfg_ulp \<and>
   init64 cfg_ulp = Inr agent_ulp \<and>
   atoms agent_ulp = [1, 1, 4503599627370497 / 4503599627370496] \<and>
   \<not> sorted_wrt (<) (atoms agent_ulp) \<and>
   2 \<le> Categorical_n_atoms cfg4 \<and> Categorical_Vmin cfg4 < Categorical_Vmax cfg4 \<and>
   init64 cfg4 = Inr agent4 \<and>
   atoms agent4 ! 3 - atoms agent4 ! 2 = 3002399751580331 / 9007199254740992 \<and>
   delta_z agent4 = 6004799503160661 / 18014398509481984 \<and>
   atoms agent4 ! 3 - atoms agent4 ! 2 \<noteq> delta_z agent4"
proof -
  have "2 \<le> Categorical_n_atoms cfg_ulp \<and> Categorical_Vmin cfg_ulp < Categorical_Vmax cfg_ulp \<and>
        2 \<le> Categorical_n_atoms cfg4 \<and> Categorical_Vmin cfg4 < Categorical_Vmax cfg4"
    by (simp add: cfg_ulp_def cfg4_def)
  moreover have "atoms agent_ulp = [1, 1, 4503599627370497 / 4503599627370496] \<and>
        \<not> sorted_wrt (<) (atoms agent_ulp)"
    by (simp add: agent_ulp_def)
  moreover have "atoms agent4 ! 3 - atoms agent4 ! 2 = 3002399751580331 / 9007199254740992 \<and>
        delta_z agent4 = 6004799503160661 / 18014398509481984 \<and>
        atoms agent4 ! 3 - atoms agent4 ! 2 \<noteq> delta_z agent4"
    by (simp add: agent4_def)
  ultimately show ?thesis using init64_cfg_ulp init64_cfg4 by blast
qed

text \<open>
  Claim C4, amended. For a valid configuration whose \<^verbatim>\<open>Vmin\<close> and \<^verbatim>\<open>Vmax\<close> are
  float64 numbers (and at most \<^verbatim>\<open>2 ** 50\<close> atoms, rounding without overflow or
  underflow) the construction succeeds and returns exactly \<^verbatim>\<open>n_atoms\<close> atoms, the first
  equal to \<^verbatim>\<open>Vmin\<close> and the last to \<^verbatim>\<open>Vmax\<close>; \<^verbatim>\<open>delta_z\<close> is the rounded
  quotient of the rounded difference \<^verbatim>\<open>Vmax - Vmin\<close> by \<^verbatim>\<open>n_atoms - 1\<close> and is
  positive; every atom \<open>k\<close> but the last is \<^verbatim>\<open>k * delta_z + Vmin\<close> with the product and
  the sum rounded; and the atoms are in non-decreasing order.
\<close>

theorem support_float64:
  assumes n: "2 \<le> Categorical_n_atoms c" and n50: "Categorical_n_atoms c \<le> 2 ^ 50"
    and v: "Categorical_Vmin c < Categorical_Vmax c"
    and rmin: "fl64 (Categorical_Vmin c) = Categorical_Vmin c"
    and rmax: "fl64 (Categorical_Vmax c) = Categorical_Vmax c"
  shows "\<exists>ag. init64 c = Inr ag \<and>
           length (atoms ag) = nat (Categorical_n_atoms c) \<and>
           atoms ag ! 0 = Categorical_Vmin c \<and>
           atoms ag ! (nat (Categorical_n_atoms c) - 1) = Categorical_Vmax c \<and>
           delta_z ag = fl64 (fl64 (Categorical_Vmax c - Categorical_Vmin c)
                          / fl64 (real_of_int (Categorical_n_atoms c - 1))) \<and>
           0 < delta_z ag \<and>
           (\<forall>k<nat (Categorical_n_atoms c) - 1.
               atoms ag ! k = fl64 (fl64 (fl64 (real k) * delta_z ag) + Categorical_Vmin c)) \<and>
           sorted (atoms ag)"
proof -
  let ?n = "Categorical_n_atoms c"
  let ?a = "Categorical_Vmin c"
  let ?b = "Categorical_Vmax c"
  define N where "N = nat ?n"
  define m where "m = real_of_int (?n - 1)"
  define D where "D = ?b - ?a"
  define step where "step = fl64 (fl64 D / fl64 m)"
  define g where "g = (\<lambda>k. fl64 (fl64 (fl64 (real k) * step) + ?a))"
  have N2: "2 \<le> N" using n by (simp add: N_def)
  have m: "1 \<le> m" using n by (simp add: m_def)
  have m50: "m \<le> 2 ^ 50"
  proof -
    have "?n - 1 \<le> 2 ^ 50" using n50 by simp
    then have "real_of_int (?n - 1) \<le> real_of_int (2 ^ 50)" by (simp only: of_int_le_iff)
    then show ?thesis by (simp add: m_def)
  qed
  have D: "0 < D" using v by (simp add: D_def)
  have mpos: "0 < m" using m by simp
  have step: "0 < step" unfolding step_def
  proof (rule fl64_pos)
    show "0 < fl64 D / fl64 m" using fl64_pos[OF D] fl64_pos[OF mpos] by simp
  qed
  from linspace64_many[OF n v rmin rmax] obtain zs where zs:
    "linspace64 ?a ?b ?n = Inr zs" "length zs = N" "zs ! (N - 1) = ?b"
    "\<forall>k<N - 1. zs ! k = g k"
    unfolding N_def g_def step_def D_def m_def by blast
  have nz: "fl64 (real_of_int (?n - 1)) \<noteq> 0" using fl64_pos[OF mpos] by (simp add: m_def)
  define ag where "ag = \<lparr> cfg = c, n_atoms = ?n, vmin = ?a, vmax = ?b, atoms = zs,
                           delta_z = fl64 (fl64 (?b - ?a) / fl64 (real_of_int (?n - 1))) \<rparr>"
  have ini: "init64 c = Inr ag" using zs(1) nz by (simp add: init64_def ag_def)
  have dz: "delta_z ag = step" by (simp add: ag_def step_def D_def m_def)
  have first: "zs ! 0 = ?a"
  proof -
    have "zs ! 0 = g 0" using zs(4) N2 by simp
    then show ?thesis by (simp add: g_def fl64_zero rmin)
  qed
  have g_mono: "g i \<le> g j" if "i \<le> j" for i j
  proof -
    have "fl64 (real i) \<le> fl64 (real j)" using that by (intro fl64_mono) simp
    then have "fl64 (real i) * step \<le> fl64 (real j) * step"
      using step by (intro mult_right_mono) simp_all
    then have "fl64 (fl64 (real i) * step) + ?a \<le> fl64 (fl64 (real j) * step) + ?a"
      using fl64_mono by simp
    then show ?thesis unfolding g_def by (rule fl64_mono)
  qed
  have g_last: "g (N - 2) \<le> ?b"
  proof -
    have "real (N - 2) = m - 1" using n by (simp add: N_def m_def)
    then have "fl64 (fl64 (real (N - 2)) * step) \<le> D"
      using fl64_last_atom[OF D m m50] by (simp add: step_def)
    then have "fl64 (fl64 (real (N - 2)) * step) + ?a \<le> ?b" by (simp add: D_def)
    from fl64_mono[OF this] show ?thesis by (simp add: g_def rmax)
  qed
  have srt: "sorted zs"
  proof -
    have "zs ! i \<le> zs ! j" if ij: "i \<le> j" "j < length zs" for i j
    proof (cases "j < N - 1")
      case True
      then have "zs ! i = g i" "zs ! j = g j" using zs(4) ij(1) by simp_all
      then show ?thesis using g_mono[OF ij(1)] by simp
    next
      case False
      then have j: "j = N - 1" using ij(2) zs(2) by simp
      show ?thesis
      proof (cases "i = j")
        case True
        then show ?thesis by simp
      next
        case False
        then have i: "i < N - 1" using ij(1) j by simp
        then have "zs ! i = g i" using zs(4) by simp
        moreover have "g i \<le> g (N - 2)" using i by (intro g_mono) simp
        ultimately show ?thesis using g_last zs(3) j by simp
      qed
    qed
    then show ?thesis by (simp add: sorted_iff_nth_mono)
  qed
  have "length (atoms ag) = N \<and> atoms ag ! 0 = ?a \<and> atoms ag ! (N - 1) = ?b \<and>
        delta_z ag = fl64 (fl64 (?b - ?a) / fl64 (real_of_int (?n - 1))) \<and> 0 < delta_z ag \<and>
        (\<forall>k<N - 1. atoms ag ! k = fl64 (fl64 (fl64 (real k) * delta_z ag) + ?a)) \<and>
        sorted (atoms ag)"
    using zs(2,3,4) first srt step unfolding dz by (simp add: ag_def g_def step_def D_def m_def)
  then show ?thesis using ini unfolding N_def by blast
qed

theorem support_float64_witness:
  "init64 cfg4 = Inr agent4 \<and>
   (\<exists>ag. init64 cfg4 = Inr ag \<and> length (atoms ag) = 4 \<and> atoms ag ! 0 = 0 \<and>
         atoms ag ! 3 = 1 \<and> 0 < delta_z ag \<and> sorted (atoms ag))"
proof -
  have h: "2 \<le> Categorical_n_atoms cfg4" "Categorical_n_atoms cfg4 \<le> 2 ^ 50"
    "Categorical_Vmin cfg4 < Categorical_Vmax cfg4"
    by (simp_all add: cfg4_def)
  have r: "fl64 (Categorical_Vmin cfg4) = Categorical_Vmin cfg4"
    "fl64 (Categorical_Vmax cfg4) = Categorical_Vmax cfg4"
    by (simp_all add: cfg4_def fl64_eval)
  from support_float64[OF h r]
  have "\<exists>ag. init64 cfg4 = Inr ag \<and> length (atoms ag) = 4 \<and> atoms ag ! 0 = 0 \<and>
         atoms ag ! 3 = 1 \<and> 0 < delta_z ag \<and> sorted (atoms ag)"
    by (auto simp add: cfg4_def)
  then show ?thesis using init64_cfg4 by simp
qed

subsection \<open>The bin indices in binary64\<close>






end
